theory Spec2Isabelle
  imports Main "HOL-Library.Word" "HOL-Library.Monad_Syntax"
begin

unbundle bit_operations_syntax


section \<open>notify-tail: data model\<close>

text \<open>
  A shallow embedding of \<^verbatim>\<open>notify-tail.c\<close>. Bytes are \<^typ>\<open>char\<close>, a C string is the
  run of bytes before the first NUL. Every function that reads or writes the fixed
  line buffer returns an \<^typ>\<open>'a option\<close>: \<open>None\<close> stands for an access outside an
  array (or the use of an indeterminate value), which C leaves undefined.
\<close>

abbreviation NUL :: char where "NUL \<equiv> CHR 0x00"
abbreviation NL :: char where "NL \<equiv> CHR 0x0A"
abbreviation QUOTE :: char where "QUOTE \<equiv> CHR 0x27"
abbreviation SLASH :: char where "SLASH \<equiv> CHR ''/''"

definition LINE_BUFFER_SIZE :: nat where
  "LINE_BUFFER_SIZE = 4096"

text \<open>\<^verbatim>\<open>size_t\<close> arithmetic is unsigned 64-bit: it wraps.\<close>

definition size_t_sub :: "nat \<Rightarrow> nat \<Rightarrow> nat" where
  "size_t_sub a b = (a + 2 ^ 64 - b) mod 2 ^ 64"

definition size_t_add :: "nat \<Rightarrow> nat \<Rightarrow> nat" where
  "size_t_add a b = (a + b) mod 2 ^ 64"

text \<open>
  \<^verbatim>\<open>struct file_watch\<close>. The \<^verbatim>\<open>next\<close> pointer is the order of the registry list, the
  \<^verbatim>\<open>parent\<close> pointer an index into it. \<open>is_file\<close> is a ghost field: it records the
  \<^verbatim>\<open>is_file\<close> argument \<^verbatim>\<open>init_watch\<close> was called with and is never read by the program.
\<close>

record file_watch =
  watch_desc :: int
  parent :: "nat option"
  name :: string
  fd :: int
  file_offset :: int
  line_buffer_data :: string
  line_buffer_pos :: nat
  is_file :: bool

text \<open>
  What the program hands to the outside: every call of \<^verbatim>\<open>handle_line\<close> (\<open>Line\<close>), the
  notification it shows (\<open>Notify\<close>), and the diagnostics it prints.
\<close>

datatype out_event =
    Line string
  | Notify string
  | LineTooLong string
  | Truncated string
  | ReadError string
  | OpenFailed string
  | AddWatchFailed string
  | UnknownWatch int
  | Unhandled "32 word" string
  | InotifyUnavailable
  | StartupFailed

datatype ptr = NULL | Ptr nat

datatype whence = SEEK_SET | SEEK_CUR | SEEK_END

section \<open>The environment: files, descriptors and inotify watches\<close>

text \<open>
  The kernel is not part of the repository. It is modelled as a small explicit machine:
  a name space from paths to inodes, the bytes of every inode, the table of open
  descriptors (inode and position), and the inotify watch table (inode and mask).
  \<open>k_watch_budget\<close> is the number of watches the kernel still grants
  (\<^verbatim>\<open>max_user_watches\<close>); \<open>k_inotify\<close> says whether \<^verbatim>\<open>inotify_init\<close> succeeds.
  \<open>k_to_utf8\<close> is GLib's \<^verbatim>\<open>g_locale_to_utf8\<close> in the character set of the process, \<open>None\<close>
  where it returns \<^verbatim>\<open>NULL\<close>; no call of the program changes it.
  Descriptors are handed out from counters. While one handler of the program runs, the
  files do not change: the environment moves only between handlers.
\<close>

record kernel =
  k_inotify :: bool
  k_paths :: "string \<Rightarrow> nat option"
  k_data :: "nat \<Rightarrow> string"
  k_fds :: "int \<Rightarrow> (nat \<times> nat) option"
  k_next_fd :: nat
  k_watches :: "int \<Rightarrow> (nat \<times> 32 word) option"
  k_next_wd :: nat
  k_watch_budget :: nat
  k_to_utf8 :: "string \<Rightarrow> string option"

definition sys_read :: "kernel \<Rightarrow> int \<Rightarrow> nat \<Rightarrow> int \<times> string \<times> kernel" where
  "sys_read k d count =
     (case k_fds k d of
        None \<Rightarrow> (- 1, [], k)
      | Some (ino, p) \<Rightarrow>
          (let bs = take count (drop p (k_data k ino))
           in (int (length bs), bs, k\<lparr>k_fds := (k_fds k)(d \<mapsto> (ino, p + length bs))\<rparr>)))"

definition sys_fstat_size :: "kernel \<Rightarrow> int \<Rightarrow> int option" where
  "sys_fstat_size k d =
     (case k_fds k d of None \<Rightarrow> None | Some (ino, p) \<Rightarrow> Some (int (length (k_data k ino))))"

definition sys_lseek :: "kernel \<Rightarrow> int \<Rightarrow> int \<Rightarrow> whence \<Rightarrow> int \<times> kernel" where
  "sys_lseek k d off wh =
     (case k_fds k d of
        None \<Rightarrow> (- 1, k)
      | Some (ino, p) \<Rightarrow>
          (let base = (case wh of SEEK_SET \<Rightarrow> 0 | SEEK_CUR \<Rightarrow> int p
                       | SEEK_END \<Rightarrow> int (length (k_data k ino)));
               target = base + off
           in if target < 0 then (- 1, k)
              else (target, k\<lparr>k_fds := (k_fds k)(d \<mapsto> (ino, nat target))\<rparr>)))"

definition sys_open :: "kernel \<Rightarrow> string \<Rightarrow> int \<times> kernel" where
  "sys_open k path =
     (case k_paths k path of
        None \<Rightarrow> (- 1, k)
      | Some ino \<Rightarrow>
          (int (k_next_fd k),
           k\<lparr>k_fds := (k_fds k)(int (k_next_fd k) \<mapsto> (ino, 0)),
             k_next_fd := Suc (k_next_fd k)\<rparr>))"

definition sys_close :: "kernel \<Rightarrow> int \<Rightarrow> kernel" where
  "sys_close k d = k\<lparr>k_fds := (k_fds k)(d := None)\<rparr>"

definition inotify_init :: "kernel \<Rightarrow> int" where
  "inotify_init k = (if k_inotify k then 3 else - 1)"

definition inotify_add_watch :: "kernel \<Rightarrow> string \<Rightarrow> 32 word \<Rightarrow> int \<times> kernel" where
  "inotify_add_watch k path m =
     (case k_paths k path of
        None \<Rightarrow> (- 1, k)
      | Some ino \<Rightarrow>
          if k_watch_budget k = 0 then (- 1, k)
          else (int (k_next_wd k),
                k\<lparr>k_watches := (k_watches k)(int (k_next_wd k) \<mapsto> (ino, m)),
                  k_next_wd := Suc (k_next_wd k),
                  k_watch_budget := k_watch_budget k - 1\<rparr>))"

definition inotify_rm_watch :: "kernel \<Rightarrow> int \<Rightarrow> kernel" where
  "inotify_rm_watch k wd =
     (case k_watches k wd of
        None \<Rightarrow> k
      | Some _ \<Rightarrow> k\<lparr>k_watches := (k_watches k)(wd := None),
                    k_watch_budget := Suc (k_watch_budget k)\<rparr>)"

section \<open>C library functions on the line buffer\<close>

text \<open>\<^verbatim>\<open>strchr(buf + i, c)\<close>: the scan stops at the first \<open>c\<close> or at the terminating NUL;
  running off the array is undefined.\<close>

function c_strchr :: "string \<Rightarrow> nat \<Rightarrow> char \<Rightarrow> ptr option" where
  "c_strchr buf i c =
     (if length buf \<le> i then None
      else if buf ! i = c then Some (Ptr i)
      else if buf ! i = NUL then Some NULL
      else c_strchr buf (Suc i) c)"
  by pat_completeness auto
termination
  by (relation "measure (\<lambda>(buf, i, c). length buf - i)") auto

declare c_strchr.simps [simp del]

text \<open>The C string that starts at \<open>buf + i\<close>.\<close>

definition c_str :: "string \<Rightarrow> nat \<Rightarrow> string option" where
  "c_str buf i =
     (if NUL \<in> set (drop i buf) then Some (takeWhile (\<lambda>c. c \<noteq> NUL) (drop i buf)) else None)"

text \<open>Writing the bytes \<open>bs\<close> at \<open>buf + i\<close>.\<close>

definition store :: "string \<Rightarrow> nat \<Rightarrow> string \<Rightarrow> string" where
  "store buf i bs = take i buf @ bs @ drop (i + length bs) buf"

definition c_memmove :: "string \<Rightarrow> nat \<Rightarrow> nat \<Rightarrow> nat \<Rightarrow> string option" where
  "c_memmove buf dst src n =
     (if src + n \<le> length buf \<and> dst + n \<le> length buf
      then Some (store buf dst (take n (drop src buf))) else None)"

section \<open>The line assembler\<close>

text \<open>\<^verbatim>\<open>handle_line\<close>: an empty line is dropped; any other is converted with
  \<^verbatim>\<open>g_locale_to_utf8\<close> (\<open>cv\<close>) and shown, and where the conversion fails the text shown is
  \<^verbatim>\<open>ERROR: Read invalid line from '<name>'\<close>. \<open>Line\<close> records the call, \<open>Notify\<close> the text
  of the notification.\<close>

definition handle_line :: "(string \<Rightarrow> string option) \<Rightarrow> file_watch \<Rightarrow> string \<Rightarrow> out_event list" where
  "handle_line cv w line =
     (if line = [] then [Line line]
      else [Line line,
            Notify (case cv line of
                      Some utf8 \<Rightarrow> utf8
                    | None \<Rightarrow> ''ERROR: Read invalid line from '' @ [QUOTE] @ name w @ [QUOTE])])"

lemma c_strchr_bounds:
  "c_strchr buf i c = Some (Ptr e) \<Longrightarrow> i \<le> e \<and> e < length buf"
proof (induction buf i c rule: c_strchr.induct)
  case (1 buf i c)
  show ?case
  proof (cases "length buf \<le> i \<or> buf ! i = c \<or> buf ! i = NUL")
    case True
    with "1.prems" show ?thesis
      by (auto simp: c_strchr.simps [of buf i c] split: if_splits)
  next
    case False
    with "1.prems" have "c_strchr buf (Suc i) c = Some (Ptr e)"
      by (simp add: c_strchr.simps [of buf i c])
    with False "1.IH" show ?thesis by auto
  qed
qed

text \<open>The \<^verbatim>\<open>while (end != NULL)\<close> loop of \<^verbatim>\<open>handle_lines\<close>: \<open>start\<close> is the index of the
  pointer \<^verbatim>\<open>start\<close>; the result is the output, the buffer and the final \<open>start\<close>.\<close>

function scan_lines :: "(string \<Rightarrow> string option) \<Rightarrow> file_watch \<Rightarrow> string \<Rightarrow> nat \<Rightarrow> (out_event list \<times> string \<times> nat) option" where
  "scan_lines cv w buf start =
     (case c_strchr buf start NL of
        None \<Rightarrow> None
      | Some NULL \<Rightarrow> Some ([], buf, start)
      | Some (Ptr e) \<Rightarrow>
          (case c_str (buf[e := NUL]) start of
             None \<Rightarrow> None
           | Some line \<Rightarrow>
               (case scan_lines cv w (buf[e := NUL]) (Suc e) of
                  None \<Rightarrow> None
                | Some (out, b, s) \<Rightarrow> Some (handle_line cv w line @ out, b, s))))"
  by pat_completeness auto
termination
  by (relation "measure (\<lambda>(cv, w, buf, start). length buf - start)")
     (auto dest: c_strchr_bounds)

declare scan_lines.simps [simp del]

definition handle_lines :: "(string \<Rightarrow> string option) \<Rightarrow> file_watch \<Rightarrow> (out_event list \<times> file_watch) option" where
  "handle_lines cv w =
     do {
       (out, buf, start) \<leftarrow> scan_lines cv w (line_buffer_data w) 0;
       (buf2, pos2) \<leftarrow>
         (if start \<noteq> 0 then
            do {
              buf' \<leftarrow> (if line_buffer_pos w > start
                        then c_memmove buf 0 start (size_t_sub (line_buffer_pos w) start)
                        else Some buf);
              Some (buf', size_t_sub (line_buffer_pos w) start)
            }
          else Some (buf, line_buffer_pos w));
       if pos2 \<ge> LINE_BUFFER_SIZE - 1 then
         do {
           line \<leftarrow> c_str buf2 0;
           Some (out @ [LineTooLong (name w)] @ handle_line cv w line,
                 w\<lparr>line_buffer_data := buf2, line_buffer_pos := 0\<rparr>)
         }
       else Some (out, w\<lparr>line_buffer_data := buf2, line_buffer_pos := pos2\<rparr>)
     }"

text \<open>\<^verbatim>\<open>do_read\<close>: the kernel writes the bytes it returns at \<^verbatim>\<open>buf + pos\<close>, then the
  program writes the terminating NUL.\<close>

definition do_read :: "kernel \<Rightarrow> file_watch \<Rightarrow> (bool \<times> out_event list \<times> kernel \<times> file_watch) option" where
  "do_read k w =
     (let pos = line_buffer_pos w;
          count = size_t_sub (size_t_sub LINE_BUFFER_SIZE pos) 1;
          (ret, bs, k') = sys_read k (fd w) count
      in if ret < 0 then Some (False, [ReadError (name w)], k', w)
         else if ret = 0 then Some (False, [], k', w)
         else if length (line_buffer_data w) < pos + length bs
                 \<or> length (line_buffer_data w) \<le> size_t_add pos (nat ret) then None
         else Some (True, [], k',
                    w\<lparr>line_buffer_data :=
                        (store (line_buffer_data w) pos bs)[size_t_add pos (nat ret) := NUL],
                      line_buffer_pos := size_t_add pos (nat ret)\<rparr>))"

text \<open>The \<^verbatim>\<open>while (do_read(watch)) handle_lines(watch);\<close> loop of \<^verbatim>\<open>read_watch\<close>. It ends
  because every successful read moves the descriptor towards the end of the file.\<close>

definition pending :: "kernel \<Rightarrow> int \<Rightarrow> nat" where
  "pending k d =
     (case k_fds k d of None \<Rightarrow> 0 | Some (ino, p) \<Rightarrow> length (k_data k ino) - p)"

lemma handle_lines_fd: "handle_lines cv w = Some (out, w') \<Longrightarrow> fd w' = fd w"
  by (auto simp: handle_lines_def Let_def split: bind_splits if_splits prod.splits)

lemma do_read_pending:
  assumes "do_read k w = Some (True, out, k', w')"
  shows "fd w' = fd w \<and> pending k' (fd w) < pending k (fd w)"
proof (cases "k_fds k (fd w)")
  case None
  with assms show ?thesis
    by (simp add: do_read_def sys_read_def Let_def)
next
  case (Some a)
  obtain ino p where a: "a = (ino, p)" by (cases a)
  from assms Some a show ?thesis
    by (auto simp: do_read_def sys_read_def pending_def Let_def split: if_splits)
qed

function read_loop :: "kernel \<Rightarrow> file_watch \<Rightarrow> (out_event list \<times> kernel \<times> file_watch) option" where
  "read_loop k w =
     (case do_read k w of
        None \<Rightarrow> None
      | Some (again, o1, k1, w1) \<Rightarrow>
          if \<not> again then Some (o1, k1, w1)
          else (case handle_lines (k_to_utf8 k1) w1 of
                  None \<Rightarrow> None
                | Some (o2, w2) \<Rightarrow>
                    (case read_loop k1 w2 of
                       None \<Rightarrow> None
                     | Some (o3, k3, w3) \<Rightarrow> Some (o1 @ o2 @ o3, k3, w3))))"
  by pat_completeness auto
termination
proof (relation "measure (\<lambda>(k, w). pending k (fd w))")
  fix k w x again y o1 z k1 w1 v o2 w2
  assume "do_read k w = Some x" and "(again, y) = x" and "(o1, z) = y" and "(k1, w1) = z"
    and "\<not> \<not> again" and "handle_lines (k_to_utf8 k1) w1 = Some v" and "(o2, w2) = v"
  then have r: "do_read k w = Some (True, o1, k1, w1)" and h: "handle_lines (k_to_utf8 k1) w1 = Some (o2, w2)"
    by auto
  from do_read_pending [OF r] handle_lines_fd [OF h]
  show "((k1, w2), (k, w)) \<in> measure (\<lambda>(k, w). pending k (fd w))"
    by simp
qed simp

declare read_loop.simps [simp del]

text \<open>\<^verbatim>\<open>read_watch\<close>. The result of \<^verbatim>\<open>fstat\<close> is not checked: on a descriptor that is not
  open the size compared is an indeterminate value.\<close>

definition read_watch :: "kernel \<Rightarrow> file_watch \<Rightarrow> (out_event list \<times> kernel \<times> file_watch) option" where
  "read_watch k w =
     do {
       st_size \<leftarrow> sys_fstat_size k (fd w);
       (o0, k0) \<leftarrow> Some (if st_size < file_offset w
                          then ([Truncated (name w)], snd (sys_lseek k (fd w) 0 SEEK_SET))
                          else ([], k));
       (o1, k1, w1) \<leftarrow> read_loop k0 w;
       (off, k2) \<leftarrow> Some (sys_lseek k1 (fd w1) 0 SEEK_CUR);
       Some (o0 @ o1, k2, w1\<lparr>file_offset := off\<rparr>)
     }"

section \<open>The registry\<close>

text \<open>
  The program's globals: the kernel it talks to, the list \<^verbatim>\<open>file_watches\<close> in \<^verbatim>\<open>next\<close> order,
  and what it has emitted so far. A \<^verbatim>\<open>struct file_watch *\<close> is an index into the list; every
  pointer the program uses comes from the list, so it is a valid index.
\<close>

record state =
  kern :: kernel
  file_watches :: "file_watch list"
  emitted :: "out_event list"

text \<open>The event bits of \<^verbatim>\<open><sys/inotify.h>\<close>.\<close>

definition IN_MODIFY :: "32 word" where "IN_MODIFY = 0x2"
definition IN_MOVED_TO :: "32 word" where "IN_MOVED_TO = 0x80"
definition IN_CREATE :: "32 word" where "IN_CREATE = 0x100"
definition IN_DELETE_SELF :: "32 word" where "IN_DELETE_SELF = 0x400"
definition IN_MOVE_SELF :: "32 word" where "IN_MOVE_SELF = 0x800"
definition IN_IGNORED :: "32 word" where "IN_IGNORED = 0x8000"

fun first_index :: "('a \<Rightarrow> bool) \<Rightarrow> 'a list \<Rightarrow> nat option" where
  "first_index P [] = None"
| "first_index P (x # xs) = (if P x then Some 0 else map_option Suc (first_index P xs))"

definition find_watch :: "file_watch list \<Rightarrow> int \<Rightarrow> nat option" where
  "find_watch ws wd = first_index (\<lambda>w. watch_desc w = wd) ws"

text \<open>Names are C strings without a NUL inside: \<^verbatim>\<open>strcmp\<close> is 0 exactly on equal names.\<close>

definition find_watch_by_name :: "file_watch list \<Rightarrow> string \<Rightarrow> nat option" where
  "find_watch_by_name ws nm = first_index (\<lambda>w. name w = nm) ws"

text \<open>\<^verbatim>\<open>init_watch\<close>: \<^verbatim>\<open>calloc\<close> zeroes the entry, which is appended to the list.\<close>

definition init_watch :: "state \<Rightarrow> string \<Rightarrow> bool \<Rightarrow> nat \<times> state" where
  "init_watch st nm isf =
     (let (wd, k') = (if \<not> isf then inotify_add_watch (kern st) nm (IN_CREATE OR IN_MOVED_TO)
                      else (- 1, kern st))
      in (length (file_watches st),
          st\<lparr>kern := k',
             file_watches := file_watches st @
               [\<lparr>watch_desc = wd, parent = None, name = nm, fd = - 1, file_offset = 0,
                 line_buffer_data = replicate LINE_BUFFER_SIZE NUL, line_buffer_pos = 0,
                 is_file = isf\<rparr>]\<rparr>))"

text \<open>\<^verbatim>\<open>strrchr(s, c)\<close> on a name: the index of the last \<open>c\<close>.\<close>

fun c_strrchr :: "string \<Rightarrow> char \<Rightarrow> nat option" where
  "c_strrchr [] c = None"
| "c_strrchr (x # xs) c =
     (case c_strrchr xs c of
        Some i \<Rightarrow> Some (Suc i)
      | None \<Rightarrow> if x = c then Some 0 else None)"

section \<open>The watch life cycle\<close>

definition wait_for_parent :: "state \<Rightarrow> nat \<Rightarrow> state" where
  "wait_for_parent st i =
     (let w = file_watches st ! i in
      if parent w \<noteq> None then st
      else (case c_strrchr (name w) SLASH of
              None \<Rightarrow> st
            | Some e \<Rightarrow>
                (let path = take e (name w) in
                 case find_watch_by_name (file_watches st) path of
                   Some p \<Rightarrow>
                     st\<lparr>file_watches := (file_watches st)[i := w\<lparr>parent := Some p\<rparr>]\<rparr>
                 | None \<Rightarrow>
                     (let (p, st') = init_watch st path False in
                      st'\<lparr>file_watches :=
                           (file_watches st')[i := (file_watches st' ! i)\<lparr>parent := Some p\<rparr>]\<rparr>))))"

definition file_deleted :: "state \<Rightarrow> nat \<Rightarrow> state" where
  "file_deleted st i =
     (let w = file_watches st ! i;
          k1 = inotify_rm_watch (kern st) (watch_desc w);
          k2 = sys_close k1 (fd w)
      in st\<lparr>kern := k2,
            file_watches := (file_watches st)
              [i := w\<lparr>fd := - 1, watch_desc := - 1, file_offset := 0, line_buffer_pos := 0\<rparr>]\<rparr>)"

definition reinit_file :: "state \<Rightarrow> nat \<Rightarrow> state" where
  "reinit_file st i =
     (let w = file_watches st ! i;
          k1 = (if fd w \<ge> 0 then sys_close (kern st) (fd w) else kern st);
          k2 = (if watch_desc w \<ge> 0 then inotify_rm_watch k1 (watch_desc w) else k1);
          st1 = st\<lparr>kern := k2,
                   file_watches := (file_watches st)[i := w\<lparr>fd := - 1, watch_desc := - 1\<rparr>]\<rparr>;
          st2 = wait_for_parent st1 i;
          w2 = file_watches st2 ! i;
          (fd', k3) = sys_open (kern st2) (name w2)
      in if fd' < 0 then st2\<lparr>kern := k3, emitted := emitted st2 @ [OpenFailed (name w2)]\<rparr>
         else (let (wd, k4) = inotify_add_watch k3 (name w2)
                                (IN_MODIFY OR IN_MOVE_SELF OR IN_DELETE_SELF)
               in if wd \<ge> 0 then
                    (let (off, k5) = sys_lseek k4 fd' 0 SEEK_END in
                     st2\<lparr>kern := k5,
                         file_watches := (file_watches st2)
                           [i := w2\<lparr>fd := fd', watch_desc := wd, file_offset := off\<rparr>]\<rparr>)
                  else st2\<lparr>kern := k4,
                           file_watches := (file_watches st2)
                             [i := w2\<lparr>fd := fd', watch_desc := wd\<rparr>],
                           emitted := emitted st2 @ [AddWatchFailed (name w2)]\<rparr>))"

definition init_file :: "state \<Rightarrow> string \<Rightarrow> bool \<times> state" where
  "init_file st nm = (let (i, st1) = init_watch st nm True in (True, reinit_file st1 i))"

fun init_files :: "state \<Rightarrow> string list \<Rightarrow> bool \<times> state" where
  "init_files st [] = (True, st)"
| "init_files st (nm # names) =
     (case init_file st nm of
        (ok, st') \<Rightarrow> if \<not> ok then (False, st') else init_files st' names)"


text \<open>
  \<^verbatim>\<open>file_appeared\<close> walks the list while \<^verbatim>\<open>reinit_file\<close> may append to it (a parent entry
  made by \<^verbatim>\<open>wait_for_parent\<close>): the walk visits the appended entries too. The new entry's
  name is a proper prefix of the name of the entry being reinitialised, so the total
  length of the names still to visit goes down with every step.
\<close>

definition names_weight :: "state \<Rightarrow> nat \<Rightarrow> nat" where
  "names_weight st i = sum_list (map (\<lambda>w. Suc (length (name w))) (drop i (file_watches st)))"

lemma c_strrchr_less: "c_strrchr s c = Some e \<Longrightarrow> e < length s"
  by (induction s arbitrary: e) (auto split: option.splits if_splits)

lemma map_name_update:
  assumes "name v = name (ws ! i)"
  shows "map name (ws[i := v]) = map name ws"
proof (cases "i < length ws")
  case True
  with assms show ?thesis
    by (simp add: map_update list_update_same_conv)
next
  case False
  then show ?thesis by (simp add: list_update_beyond)
qed

lemma init_watch_names:
  "map name (file_watches (snd (init_watch st nm isf))) = map name (file_watches st) @ [nm]"
  by (simp add: init_watch_def Let_def split: prod.splits)

lemma wait_for_parent_names:
  assumes "i < length (file_watches st)"
  shows "\<exists>extra. map name (file_watches (wait_for_parent st i)) = map name (file_watches st) @ extra
           \<and> sum_list (map (\<lambda>n. Suc (length n)) extra) \<le> length (name (file_watches st ! i))"
proof (cases "parent (file_watches st ! i) \<noteq> None \<or> c_strrchr (name (file_watches st ! i)) SLASH = None")
  case True
  then have "wait_for_parent st i = st"
    by (auto simp: wait_for_parent_def Let_def)
  then show ?thesis by simp
next
  case False
  then obtain e where np: "parent (file_watches st ! i) = None"
    and e: "c_strrchr (name (file_watches st ! i)) SLASH = Some e"
    by auto
  from e have el: "e < length (name (file_watches st ! i))"
    by (rule c_strrchr_less)
  show ?thesis
  proof (cases "find_watch_by_name (file_watches st) (take e (name (file_watches st ! i)))")
    case (Some p)
    with np e have "map name (file_watches (wait_for_parent st i)) = map name (file_watches st)"
      by (simp add: wait_for_parent_def Let_def map_name_update)
    then show ?thesis by simp
  next
    case None
    obtain q st' where iw: "init_watch st (take e (name (file_watches st ! i))) False = (q, st')"
      by (cases "init_watch st (take e (name (file_watches st ! i))) False")
    from init_watch_names [of st "take e (name (file_watches st ! i))" False] iw
    have n': "map name (file_watches st') = map name (file_watches st) @ [take e (name (file_watches st ! i))]"
      by simp
    from None np e iw
    have "map name (file_watches (wait_for_parent st i)) = map name (file_watches st')"
      by (simp add: wait_for_parent_def Let_def map_name_update)
    with n' el show ?thesis
      by (intro exI [of _ "[take e (name (file_watches st ! i))]"]) simp
  qed
qed


lemma wait_for_parent_length:
  "length (file_watches st) \<le> length (file_watches (wait_for_parent st i))"
  by (auto simp: wait_for_parent_def init_watch_def Let_def split: option.splits prod.splits)

lemma reinit_file_names:
  assumes "i < length (file_watches st)"
  shows "\<exists>extra. map name (file_watches (reinit_file st i)) = map name (file_watches st) @ extra
           \<and> sum_list (map (\<lambda>n. Suc (length n)) extra) \<le> length (name (file_watches st ! i))"
proof -
  define w where "w = file_watches st ! i"
  define k2 where "k2 = (let k1 = (if fd w \<ge> 0 then sys_close (kern st) (fd w) else kern st)
                         in if watch_desc w \<ge> 0 then inotify_rm_watch k1 (watch_desc w) else k1)"
  define st1 where "st1 = st\<lparr>kern := k2,
                   file_watches := (file_watches st)[i := w\<lparr>fd := - 1, watch_desc := - 1\<rparr>]\<rparr>"
  define st2 where "st2 = wait_for_parent st1 i"
  have n1: "map name (file_watches st1) = map name (file_watches st)"
    by (simp add: st1_def w_def map_name_update)
  have i1: "i < length (file_watches st1)"
    using assms by (simp add: st1_def)
  have nm1: "name (file_watches st1 ! i) = name (file_watches st ! i)"
    using assms by (simp add: st1_def w_def)
  from wait_for_parent_names [OF i1] obtain extra where
    ex: "map name (file_watches st2) = map name (file_watches st) @ extra"
    and sm: "sum_list (map (\<lambda>n. Suc (length n)) extra) \<le> length (name (file_watches st ! i))"
    unfolding st2_def n1 nm1 by blast
  have "map name (file_watches (reinit_file st i)) = map name (file_watches st2)"
    unfolding reinit_file_def Let_def w_def [symmetric] k2_def [unfolded Let_def, symmetric]
      st1_def [symmetric] st2_def [symmetric]
    by (simp add: map_name_update split: prod.splits)
  with ex sm show ?thesis by auto
qed

lemma names_weight_skip:
  assumes "i < length (file_watches st)"
  shows "names_weight st (Suc i) < names_weight st i"
proof -
  have "drop i (file_watches st) = file_watches st ! i # drop (Suc i) (file_watches st)"
    using assms by (simp add: Cons_nth_drop_Suc)
  then show ?thesis
    by (simp add: names_weight_def)
qed

lemma names_weight_reinit:
  assumes "i < length (file_watches st)"
  shows "names_weight (reinit_file st i) (Suc i) < names_weight st i"
proof -
  from reinit_file_names [OF assms] obtain extra where
    ex: "map name (file_watches (reinit_file st i)) = map name (file_watches st) @ extra"
    and sm: "sum_list (map (\<lambda>n. Suc (length n)) extra) \<le> length (name (file_watches st ! i))"
    by blast
  have w: "\<And>s j. names_weight s j = sum_list (map (\<lambda>n. Suc (length n)) (drop j (map name (file_watches s))))"
    by (simp add: names_weight_def drop_map comp_def)
  have d: "drop i (map name (file_watches st))
           = name (file_watches st ! i) # drop (Suc i) (map name (file_watches st))"
    using assms by (simp add: Cons_nth_drop_Suc [symmetric])
  have "names_weight (reinit_file st i) (Suc i)
        = sum_list (map (\<lambda>n. Suc (length n)) (drop (Suc i) (map name (file_watches st))))
          + sum_list (map (\<lambda>n. Suc (length n)) extra)"
    using assms by (simp add: w ex)
  also have "\<dots> < names_weight st i"
    using sm by (simp add: w d)
  finally show ?thesis .
qed


text \<open>
  The loop of \<^verbatim>\<open>file_appeared\<close>, from entry \<open>i\<close> on. \<^verbatim>\<open>strncmp(dir, file, strlen(dir)) == 0\<close>
  holds exactly when \<open>dir\<close> is a prefix of the file's name. Beside the state the model
  returns a ghost value the program does not have: the indices \<^verbatim>\<open>reinit_file\<close> was called
  on, in call order.
\<close>

function file_appeared_loop :: "string \<Rightarrow> string \<Rightarrow> state \<Rightarrow> nat \<Rightarrow> state \<times> nat list" where
  "file_appeared_loop dir nm st i =
     (if length (file_watches st) \<le> i then (st, [])
      else if take (length dir) (name (file_watches st ! i)) = dir
              \<and> dropWhile (\<lambda>c. c = SLASH) (drop (length dir) (name (file_watches st ! i))) = nm
           then (case file_appeared_loop dir nm (reinit_file st i) (Suc i) of
                   (st', calls) \<Rightarrow> (st', i # calls))
           else file_appeared_loop dir nm st (Suc i))"
  by pat_completeness auto
termination
  by (relation "measure (\<lambda>(dir, nm, st, i). names_weight st i)")
     (auto simp: names_weight_skip names_weight_reinit)

declare file_appeared_loop.simps [simp del]

definition file_appeared :: "state \<Rightarrow> nat \<Rightarrow> string \<Rightarrow> state" where
  "file_appeared st i nm = fst (file_appeared_loop (name (file_watches st ! i)) nm st 0)"

section \<open>Events and start-up\<close>

definition handle_event :: "state \<Rightarrow> nat \<Rightarrow> string \<Rightarrow> 32 word \<Rightarrow> state option" where
  "handle_event st i nm m0 =
     do {
       (st1, m1) \<leftarrow>
         (if m0 AND IN_MODIFY \<noteq> 0 then
            do {
              (out, k', w') \<leftarrow> read_watch (kern st) (file_watches st ! i);
              Some (st\<lparr>kern := k', file_watches := (file_watches st)[i := w'],
                       emitted := emitted st @ out\<rparr>,
                    m0 AND NOT IN_MODIFY)
            }
          else Some (st, m0));
       (st2, m2) \<leftarrow>
         Some (if m1 AND IN_CREATE \<noteq> 0 \<or> m1 AND IN_MOVED_TO \<noteq> 0
               then (file_appeared st1 i nm, m1 AND NOT (IN_CREATE OR IN_MOVED_TO))
               else (st1, m1));
       (st3, m3) \<leftarrow>
         Some (if m2 AND IN_DELETE_SELF \<noteq> 0 \<or> m2 AND IN_MOVE_SELF \<noteq> 0
               then (file_deleted st2 i, m2 AND NOT (IN_DELETE_SELF OR IN_MOVE_SELF))
               else (st2, m2));
       Some (if m3 AND NOT IN_IGNORED \<noteq> 0
             then st3\<lparr>emitted := emitted st3
                        @ [Unhandled (m3 AND NOT IN_IGNORED) (name (file_watches st3 ! i))]\<rparr>
             else st3)
     }"

text \<open>\<^verbatim>\<open>read_events\<close>, on the decoded batch: one \<open>(wd, mask, name)\<close> per event.\<close>

fun read_events :: "state \<Rightarrow> (int \<times> 32 word \<times> string) list \<Rightarrow> state option" where
  "read_events st [] = Some st"
| "read_events st ((wd, m, nm) # evs) =
     (case find_watch (file_watches st) wd of
        Some i \<Rightarrow>
          (case handle_event st i nm m of None \<Rightarrow> None | Some st' \<Rightarrow> read_events st' evs)
      | None \<Rightarrow> read_events (st\<lparr>emitted := emitted st @ [UnknownWatch wd]\<rparr>) evs)"

text \<open>\<^verbatim>\<open>main\<close> up to the \<^verbatim>\<open>do ... while (true)\<close> loop, which it never leaves: either the
  process exits with a status, or it enters the loop in some state. \<open>args\<close> is
  \<^verbatim>\<open>argv[1..]\<close>.\<close>

datatype outcome = Exit int "out_event list" | EventLoop state

definition main :: "kernel \<Rightarrow> string list \<Rightarrow> outcome" where
  "main k args =
     (if inotify_init k < 0 then Exit (- 1) [InotifyUnavailable]
      else (case init_files \<lparr>kern = k, file_watches = [], emitted = []\<rparr> args of
              (ok, st) \<Rightarrow>
                if \<not> ok then Exit (- 1) (emitted st @ [StartupFailed]) else EventLoop st))"

section \<open>Moves of the environment\<close>

text \<open>What other processes do to the files between two handlers of the program.\<close>

definition env_create :: "kernel \<Rightarrow> string \<Rightarrow> nat \<Rightarrow> string \<Rightarrow> kernel" where
  "env_create k path ino content =
     k\<lparr>k_paths := (k_paths k)(path \<mapsto> ino), k_data := (k_data k)(ino := content)\<rparr>"

definition env_append :: "kernel \<Rightarrow> nat \<Rightarrow> string \<Rightarrow> kernel" where
  "env_append k ino bs = k\<lparr>k_data := (k_data k)(ino := k_data k ino @ bs)\<rparr>"

definition env_truncate :: "kernel \<Rightarrow> nat \<Rightarrow> nat \<Rightarrow> kernel" where
  "env_truncate k ino n = k\<lparr>k_data := (k_data k)(ino := take n (k_data k ino))\<rparr>"


section \<open>Reference functions and drivers for the claims\<close>

text \<open>Splitting on a separator, as the specification words it: \<open>split_on c s\<close> lists the
  segments of \<open>s\<close> between the occurrences of \<open>c\<close>; the last segment is what follows the
  last separator.\<close>

fun split_on :: "char \<Rightarrow> string \<Rightarrow> string list" where
  "split_on c [] = [[]]"
| "split_on c (x # xs) =
     (if x = c then [] # split_on c xs
      else (x # hd (split_on c xs)) # tl (split_on c xs))"

text \<open>"Without the trailing empty segment."\<close>

definition drop_trailing_empty :: "string list \<Rightarrow> string list" where
  "drop_trailing_empty segs = (if segs \<noteq> [] \<and> last segs = [] then butlast segs else segs)"

text \<open>The lines handed to \<^verbatim>\<open>handle_line\<close>, and the forced splits announced, in an output.\<close>

fun lines_of :: "out_event list \<Rightarrow> string list" where
  "lines_of [] = []"
| "lines_of (Line l # es) = l # lines_of es"
| "lines_of (e # es) = lines_of es"

fun splits_of :: "out_event list \<Rightarrow> nat" where
  "splits_of [] = 0"
| "splits_of (LineTooLong nm # es) = Suc (splits_of es)"
| "splits_of (e # es) = splits_of es"

text \<open>Feeding chunks: the file behind the descriptor grows by one chunk, the modify event
  arrives and \<^verbatim>\<open>read_watch\<close> runs; then the next chunk.\<close>

fun feed_all :: "kernel \<Rightarrow> file_watch \<Rightarrow> nat \<Rightarrow> string list
    \<Rightarrow> (out_event list \<times> kernel \<times> file_watch) option" where
  "feed_all k w ino [] = Some ([], k, w)"
| "feed_all k w ino (c # cs) =
     (case read_watch (env_append k ino c) w of
        None \<Rightarrow> None
      | Some (o1, k1, w1) \<Rightarrow>
          (case feed_all k1 w1 ino cs of
             None \<Rightarrow> None
           | Some (o2, k2, w2) \<Rightarrow> Some (o1 @ o2, k2, w2)))"

text \<open>The lines emitted while the chunks are fed.\<close>

definition fed_lines :: "kernel \<Rightarrow> file_watch \<Rightarrow> nat \<Rightarrow> string list \<Rightarrow> string list option" where
  "fed_lines k w ino cs = map_option (\<lambda>(out, k', w'). lines_of out) (feed_all k w ino cs)"

text \<open>The invariant of the line buffer between two reads, and the byte under the cursor
  in a result.\<close>

definition buffer_ok :: "file_watch \<Rightarrow> bool" where
  "buffer_ok w \<longleftrightarrow>
     length (line_buffer_data w) = LINE_BUFFER_SIZE \<and> line_buffer_pos w < LINE_BUFFER_SIZE - 1"

definition cursor_byte :: "(out_event list \<times> kernel \<times> file_watch) option \<Rightarrow> char option" where
  "cursor_byte r = map_option (\<lambda>(out, k, w). line_buffer_data w ! line_buffer_pos w) r"

text \<open>The conversion in the C locale (the program never calls \<^verbatim>\<open>setlocale\<close>): ASCII text
  converts to itself, any other byte makes it fail. It is the conversion of the concrete
  situations below; the lemmas on the reading code hold for every conversion.\<close>

definition c_locale_to_utf8 :: "string \<Rightarrow> string option" where
  "c_locale_to_utf8 l = (if list_all (\<lambda>c. (of_char c :: nat) < 128) l then Some l else None)"

text \<open>A concrete situation: \<^verbatim>\<open>/tmp/log.txt\<close> (inode 3, empty) in \<^verbatim>\<open>/tmp\<close> (inode 2), tailed
  through descriptor 4 and watch 2, the parent directory watched as entry 1.\<close>

definition k_tail :: kernel where
  "k_tail =
     \<lparr>k_inotify = True,
      k_paths = [''/tmp'' \<mapsto> 2, ''/tmp/log.txt'' \<mapsto> 3],
      k_data = (\<lambda>ino. []),
      k_fds = [4 \<mapsto> (3, 0)],
      k_next_fd = 5,
      k_watches = [1 \<mapsto> (2, IN_CREATE OR IN_MOVED_TO),
                   2 \<mapsto> (3, IN_MODIFY OR IN_MOVE_SELF OR IN_DELETE_SELF)],
      k_next_wd = 3,
      k_watch_budget = 100,
      k_to_utf8 = c_locale_to_utf8\<rparr>"

definition w_tail :: file_watch where
  "w_tail =
     \<lparr>watch_desc = 2, parent = Some 1, name = ''/tmp/log.txt'', fd = 4, file_offset = 0,
      line_buffer_data = replicate LINE_BUFFER_SIZE NUL, line_buffer_pos = 0, is_file = True\<rparr>"

text \<open>The same entry with read offset 20, after the file was cut down to three bytes.\<close>

definition st_truncated :: state where
  "st_truncated =
     \<lparr>kern = env_append k_tail 3 (''xy'' @ [NL]),
      file_watches = [w_tail\<lparr>file_offset := 20\<rparr>],
      emitted = []\<rparr>"

text \<open>Start-up on a path that does not exist yet: only \<^verbatim>\<open>/tmp\<close> is there. \<open>st_waiting\<close> is
  the state in which \<^verbatim>\<open>main\<close> then enters the event loop.\<close>

definition k_start :: kernel where
  "k_start =
     \<lparr>k_inotify = True, k_paths = [''/tmp'' \<mapsto> 2], k_data = (\<lambda>ino. []),
      k_fds = Map.empty, k_next_fd = 4, k_watches = Map.empty, k_next_wd = 1,
      k_watch_budget = 100, k_to_utf8 = c_locale_to_utf8\<rparr>"

definition w_unwatched :: file_watch where
  "w_unwatched =
     \<lparr>watch_desc = - 1, parent = Some 1, name = ''/tmp/log.txt'', fd = - 1, file_offset = 0,
      line_buffer_data = replicate LINE_BUFFER_SIZE NUL, line_buffer_pos = 0, is_file = True\<rparr>"

definition w_dir :: file_watch where
  "w_dir =
     \<lparr>watch_desc = 1, parent = None, name = ''/tmp'', fd = - 1, file_offset = 0,
      line_buffer_data = replicate LINE_BUFFER_SIZE NUL, line_buffer_pos = 0, is_file = False\<rparr>"

definition st_waiting :: state where
  "st_waiting =
     \<lparr>kern = k_start\<lparr>k_watches := [1 \<mapsto> (2, IN_CREATE OR IN_MOVED_TO)], k_next_wd := 2,
                       k_watch_budget := 99\<rparr>,
      file_watches = [w_unwatched, w_dir],
      emitted = [OpenFailed ''/tmp/log.txt'']\<rparr>"

text \<open>The file has appeared, but the kernel grants no further watch.\<close>

definition st_nospace :: state where
  "st_nospace =
     \<lparr>kern = (env_create (kern st_waiting) ''/tmp/log.txt'' 3 [])\<lparr>k_watch_budget := 0\<rparr>,
      file_watches = [w_unwatched, w_dir],
      emitted = []\<rparr>"

text \<open>The tailed file held \<open>abc\<close> without a newline, which was read; then a new file (inode 5)
  was renamed over its path.\<close>

definition st_rotated :: state where
  "st_rotated =
     \<lparr>kern = env_create ((env_append k_tail 3 ''abc'')\<lparr>k_fds := [4 \<mapsto> (3, 3)]\<rparr>)
               ''/tmp/log.txt'' 5 (''NEW'' @ [NL]),
      file_watches =
        [w_tail\<lparr>line_buffer_data := ''abc'' @ replicate 4093 NUL, line_buffer_pos := 3,
                file_offset := 3\<rparr>,
         w_dir],
      emitted = []\<rparr>"

text \<open>Entries as \<^verbatim>\<open>init_watch\<close> makes them, two files of \<^verbatim>\<open>/tmp\<close> before either asked for its
  parent, a view of the registry a run of \<^verbatim>\<open>main\<close> ends with, and the kernel after start-up
  on \<^verbatim>\<open>/tmp\<close> itself.\<close>

definition fresh_file :: "string \<Rightarrow> file_watch" where
  "fresh_file nm =
     \<lparr>watch_desc = - 1, parent = None, name = nm, fd = - 1, file_offset = 0,
      line_buffer_data = replicate LINE_BUFFER_SIZE NUL, line_buffer_pos = 0, is_file = True\<rparr>"



definition dir_entry :: "string \<Rightarrow> int \<Rightarrow> file_watch" where
  "dir_entry nm wd =
     \<lparr>watch_desc = wd, parent = None, name = nm, fd = - 1, file_offset = 0,
      line_buffer_data = replicate LINE_BUFFER_SIZE NUL, line_buffer_pos = 0, is_file = False\<rparr>"

definition k_tmp_tailed :: kernel where
  "k_tmp_tailed =
     k_start\<lparr>k_fds := [4 \<mapsto> (2, 0)], k_next_fd := 5,
             k_watches := [1 \<mapsto> (2, IN_MODIFY OR IN_MOVE_SELF OR IN_DELETE_SELF)],
             k_next_wd := 2, k_watch_budget := 99\<rparr>"



text \<open>After start-up on the missing \<^verbatim>\<open>/tmp/log.txt\<close> (\<open>st_waiting\<close>): the file is created with
  content \<open>c\<close> (\<open>st_created\<close>); the state after the create event of the directory was
  handled (\<open>st_opened\<close>); bytes written to a file by another process; and what is visible
  of entry 0: the lines handed to \<^verbatim>\<open>handle_line\<close> so far, its descriptor, its watch
  descriptor and its read offset.\<close>

definition st_created :: "string \<Rightarrow> state" where
  "st_created c = st_waiting\<lparr>kern := env_create (kern st_waiting) ''/tmp/log.txt'' 3 c\<rparr>"

definition st_opened :: "string \<Rightarrow> state" where
  "st_opened c =
     \<lparr>kern = (env_create (kern st_waiting) ''/tmp/log.txt'' 3 c)
               \<lparr>k_fds := [4 \<mapsto> (3, length c)], k_next_fd := 5,
                k_watches := [1 \<mapsto> (2, IN_CREATE OR IN_MOVED_TO),
                              2 \<mapsto> (3, IN_MODIFY OR IN_MOVE_SELF OR IN_DELETE_SELF)],
                k_next_wd := 3, k_watch_budget := 98\<rparr>,
      file_watches = [w_unwatched\<lparr>fd := 4, watch_desc := 2, file_offset := int (length c)\<rparr>, w_dir],
      emitted = [OpenFailed ''/tmp/log.txt'']\<rparr>"

definition written :: "state \<Rightarrow> nat \<Rightarrow> string \<Rightarrow> state" where
  "written st ino bs = st\<lparr>kern := env_append (kern st) ino bs\<rparr>"

definition observe :: "state \<Rightarrow> string list \<times> int \<times> int \<times> int" where
  "observe st =
     (lines_of (emitted st), fd (file_watches st ! 0), watch_desc (file_watches st ! 0),
      file_offset (file_watches st ! 0))"

section \<open>Lemmas on the line assembler\<close>

lemma split_on_nonempty [simp]: "split_on c s \<noteq> []"
  by (induction s) auto

lemma split_on_no_sep: "c \<notin> set s \<Longrightarrow> split_on c s = [s]"
  by (induction s) auto

lemma split_on_first: "c \<notin> set l \<Longrightarrow> split_on c (l @ c # s) = l # split_on c s"
  by (induction l) auto

lemma split_on_append:
  "split_on c (xs @ ys) = butlast (split_on c xs) @ split_on c (last (split_on c xs) @ ys)"
proof (induction xs)
  case Nil
  show ?case by simp
next
  case (Cons x xs)
  show ?case
  proof (cases "x = c")
    case True
    with Cons show ?thesis by simp
  next
    case False
    obtain l ls where r: "split_on c xs = l # ls"
      by (cases "split_on c xs") auto
    show ?thesis
    proof (cases ls)
      case Nil
      with r False Cons show ?thesis by simp
    next
      case (Cons a as)
      with r False Cons.IH show ?thesis by simp
    qed
  qed
qed

lemma drop_eq_ConsD:
  "drop i buf = x # rest \<Longrightarrow> i < length buf \<and> buf ! i = x \<and> drop (Suc i) buf = rest"
  by (metis Cons_nth_drop_Suc drop_all leI list.distinct(1) list.inject)

lemma c_strchr_scan:
  "drop i buf = s @ x # rest \<Longrightarrow> c \<notin> set s \<Longrightarrow> NUL \<notin> set s \<Longrightarrow> x = c \<or> x = NUL \<Longrightarrow>
   c_strchr buf i c = Some (if x = c then Ptr (i + length s) else NULL)"
proof (induction s arbitrary: i)
  case Nil
  then have "i < length buf \<and> buf ! i = x" using drop_eq_ConsD [of i buf x rest] by simp
  with Nil show ?case by (auto simp: c_strchr.simps [of buf i c])
next
  case (Cons a s)
  from Cons.prems(1) have d: "i < length buf \<and> buf ! i = a \<and> drop (Suc i) buf = s @ x # rest"
    using drop_eq_ConsD [of i buf a "s @ x # rest"] by simp
  with Cons.prems have "c_strchr buf (Suc i) c = Some (if x = c then Ptr (Suc i + length s) else NULL)"
    by (intro Cons.IH) auto
  with d Cons.prems show ?case by (auto simp: c_strchr.simps [of buf i c])
qed


lemma last_split_on_length: "length (last (split_on c s)) \<le> length s"
proof (induction s)
  case Nil
  show ?case by simp
next
  case (Cons x xs)
  obtain l ls where r: "split_on c xs = l # ls"
    by (cases "split_on c xs") auto
  with Cons show ?case by (cases ls) auto
qed

lemma takeWhile_not_NUL:
  "NUL \<notin> set l \<Longrightarrow> takeWhile (\<lambda>c. c \<noteq> NUL) (l @ NUL # rest) = l"
  by (induction l) auto

lemma c_str_prefix:
  "drop i buf = l @ NUL # rest \<Longrightarrow> NUL \<notin> set l \<Longrightarrow> c_str buf i = Some l"
  by (simp add: c_str_def takeWhile_not_NUL)

lemma drop_update_at:
  assumes "drop i buf = l @ x # rest"
  shows "drop i (buf[i + length l := y]) = l @ y # rest"
    and "drop (Suc (i + length l)) (buf[i + length l := y]) = rest"
    and "i + length l < length buf"
proof -
  have "drop i (buf[i + length l := y]) = (drop i buf)[length l := y]"
    by (simp add: drop_update_swap)
  with assms show a: "drop i (buf[i + length l := y]) = l @ y # rest"
    by simp
  have "drop (Suc (i + length l)) (buf[i + length l := y])
        = drop (Suc (length l)) (drop i (buf[i + length l := y]))"
    by (simp add: add.commute)
  with a show "drop (Suc (i + length l)) (buf[i + length l := y]) = rest"
    by simp
  have "length (drop i buf) = length l + Suc (length rest)"
    using assms by simp
  then show "i + length l < length buf"
    by simp
qed

lemma scan_lines_char:
  assumes "NUL \<notin> set s" and "drop start buf = s @ NUL # rest"
  shows "\<exists>buf'. scan_lines cv w buf start
            = Some (concat (map (handle_line cv w) (butlast (split_on NL s))), buf',
                    start + length s - length (last (split_on NL s)))
          \<and> length buf' = length buf
          \<and> drop (start + length s - length (last (split_on NL s))) buf'
              = last (split_on NL s) @ NUL # rest
          \<and> (NL \<in> set s \<or> buf' = buf)"
  using assms
proof (induction "length s" arbitrary: s buf start rule: less_induct)
  case less
  show ?case
  proof (cases "NL \<in> set s")
    case False
    with less.prems have "c_strchr buf start NL = Some NULL"
      using c_strchr_scan [of start buf s NUL rest NL] by simp
    with False less.prems show ?thesis
      by (simp add: scan_lines.simps [of cv w buf start] split_on_no_sep)
  next
    case True
    then obtain l s' where s: "s = l @ NL # s'" and l: "NL \<notin> set l"
      by (auto dest: split_list_first)
    define e where "e = start + length l"
    define b1 where "b1 = buf[e := NUL]"
    from less.prems s have d: "drop start buf = l @ NL # (s' @ NUL # rest)"
      by simp
    from less.prems s l have p: "c_strchr buf start NL = Some (Ptr e)"
      using c_strchr_scan [of start buf l NL "s' @ NUL # rest" NL] by (simp add: e_def)
    from drop_update_at(1,2) [OF d, of NUL]
    have d1: "drop start b1 = l @ NUL # (s' @ NUL # rest)"
      and d2: "drop (Suc e) b1 = s' @ NUL # rest"
      by (simp_all add: b1_def e_def)
    from less.prems s have nl: "NUL \<notin> set l" and ns: "NUL \<notin> set s'"
      by simp_all
    from d1 nl have c: "c_str b1 start = Some l"
      by (rule c_str_prefix)
    have "length s' < length s" using s by simp
    from less.hyps [OF this ns d2] obtain b2 where
      r: "scan_lines cv w b1 (Suc e)
            = Some (concat (map (handle_line cv w) (butlast (split_on NL s'))), b2,
                    Suc e + length s' - length (last (split_on NL s')))"
      and len: "length b2 = length b1"
      and dr: "drop (Suc e + length s' - length (last (split_on NL s'))) b2
                 = last (split_on NL s') @ NUL # rest"
      by blast
    have sp: "split_on NL s = l # split_on NL s'"
      using s l by (simp add: split_on_first)
    have le: "length (last (split_on NL s')) \<le> length s'"
      by (rule last_split_on_length)
    have idx: "start + length s - length (last (split_on NL s))
               = Suc e + length s' - length (last (split_on NL s'))"
      using s sp le by (simp add: e_def)
    have "scan_lines cv w buf start
            = Some (handle_line cv w l @ concat (map (handle_line cv w) (butlast (split_on NL s'))), b2,
                    Suc e + length s' - length (last (split_on NL s')))"
      using p c r by (simp add: scan_lines.simps [of cv w buf start] b1_def)
    with sp idx len dr True show ?thesis
      by (simp add: b1_def)
  qed
qed


lemma last_split_on_shorter:
  "c \<in> set s \<Longrightarrow> length (last (split_on c s)) < length s"
proof -
  assume "c \<in> set s"
  then obtain l s' where s: "s = l @ c # s'" and l: "c \<notin> set l"
    by (auto dest: split_list_first)
  have "length (last (split_on c s')) \<le> length s'"
    by (rule last_split_on_length)
  with s l show ?thesis
    by (simp add: split_on_first)
qed

lemma size_t_sub_small:
  assumes "b \<le> a" and "a < 2 ^ 64"
  shows "size_t_sub a b = a - b"
proof -
  from assms(1) have "(a + 2 ^ 64 - b) mod 2 ^ 64 = ((a - b) + 2 ^ 64) mod 2 ^ 64"
    by (simp only: Nat.add_diff_assoc2)
  also have "\<dots> = (a - b) mod 2 ^ 64"
    by (rule mod_add_self2)
  also from assms(2) have "\<dots> = a - b"
    by (intro mod_less) arith
  finally show ?thesis
    by (simp only: size_t_sub_def)
qed

lemma size_t_add_small: "a + b < 2 ^ 64 \<Longrightarrow> size_t_add a b = a + b"
  by (simp add: size_t_add_def)

lemma handle_lines_no_newline:
  assumes "line_buffer_data w = s @ NUL # rest" and "NUL \<notin> set s" and "NL \<notin> set s"
  shows "handle_lines cv w
         = Some (if LINE_BUFFER_SIZE - 1 \<le> line_buffer_pos w
                 then ([LineTooLong (name w)] @ handle_line cv w s, w\<lparr>line_buffer_pos := 0\<rparr>)
                 else ([], w))"
proof -
  from assms have d: "drop 0 (line_buffer_data w) = s @ NUL # rest"
    by simp
  from scan_lines_char [OF assms(2) d, of cv w] assms(3)
  have sc: "scan_lines cv w (line_buffer_data w) 0 = Some ([], line_buffer_data w, 0)"
    by (auto simp: split_on_no_sep)
  from d assms(2) have c: "c_str (line_buffer_data w) 0 = Some s"
    by (rule c_str_prefix)
  show ?thesis
    by (simp add: handle_lines_def sc c)
qed

lemma handle_lines_shift:
  assumes sc: "scan_lines cv w (line_buffer_data w) 0 = Some (out, b, off)"
    and off0: "0 < off" and p4: "line_buffer_pos w < LINE_BUFFER_SIZE"
    and offp: "off \<le> line_buffer_pos w"
    and mv: "off < line_buffer_pos w \<Longrightarrow> c_memmove b 0 off (line_buffer_pos w - off) = Some d'"
    and mv2: "\<not> off < line_buffer_pos w \<Longrightarrow> d' = b"
  shows "handle_lines cv w
          = Some (out, w\<lparr>line_buffer_data := d', line_buffer_pos := line_buffer_pos w - off\<rparr>)"
proof -
  have small: "\<not> 4095 \<le> line_buffer_pos w - off"
    using off0 p4 offp unfolding LINE_BUFFER_SIZE_def by arith
  have "line_buffer_pos w < 2 ^ 64"
    using p4 by (simp add: LINE_BUFFER_SIZE_def)
  with offp have sub: "size_t_sub (line_buffer_pos w) off = line_buffer_pos w - off"
    by (rule size_t_sub_small)
  show ?thesis
    using off0 small
    by (simp add: handle_lines_def sc sub mv mv2 LINE_BUFFER_SIZE_def)
qed

lemma handle_lines_newline:
  assumes len: "length (line_buffer_data w) = LINE_BUFFER_SIZE"
    and pos: "line_buffer_pos w < LINE_BUFFER_SIZE"
    and dat: "line_buffer_data w = s @ NUL # rest"
    and nul: "NUL \<notin> set s" and nl: "NL \<in> set s"
    and sp: "length s \<le> line_buffer_pos w"
  shows "\<exists>d. handle_lines cv w
              = Some (concat (map (handle_line cv w) (butlast (split_on NL s))),
                      w\<lparr>line_buffer_data := d,
                        line_buffer_pos := line_buffer_pos w
                                           - (length s - length (last (split_on NL s)))\<rparr>)
           \<and> length d = LINE_BUFFER_SIZE
           \<and> take (line_buffer_pos w - (length s - length (last (split_on NL s)))) d
               = take (line_buffer_pos w - (length s - length (last (split_on NL s))))
                   (last (split_on NL s) @ NUL # rest)"
proof -
  define t where "t = last (split_on NL s)"
  define off where "off = length s - length t"
  define p where "p = line_buffer_pos w"
  from dat have d: "drop 0 (line_buffer_data w) = s @ NUL # rest"
    by simp
  from scan_lines_char [OF nul d, of cv w] obtain b where
    sc: "scan_lines cv w (line_buffer_data w) 0
           = Some (concat (map (handle_line cv w) (butlast (split_on NL s))), b, off)"
    and lb: "length b = LINE_BUFFER_SIZE"
    and db: "drop off b = t @ NUL # rest"
    by (auto simp: t_def off_def len)
  from last_split_on_shorter [OF nl] have off0: "0 < off" and offs: "off \<le> length s"
    by (simp_all add: off_def t_def)
  from offs sp have offp: "off \<le> p" by (simp add: p_def)
  have pb: "p < length b"
    using pos lb by (simp add: p_def)
  define d' where "d' = (if off < p then store b 0 (take (p - off) (drop off b)) else b)"
  have mv: "c_memmove b 0 off (p - off) = Some d'" if "off < p"
    using that pb by (simp add: c_memmove_def d'_def)
  have mv2: "d' = b" if "\<not> off < p"
    using that by (simp add: d'_def)
  have ld: "length d' = LINE_BUFFER_SIZE"
  proof (cases "off < p")
    case True
    with pb offp have "length d' = (p - off) + (length b - (p - off))"
      by (simp add: d'_def store_def)
    with pb lb show ?thesis by simp
  next
    case False
    with lb show ?thesis by (simp add: d'_def)
  qed
  have tk: "take (p - off) d' = take (p - off) (t @ NUL # rest)"
  proof (cases "off < p")
    case True
    with pb offp have "take (p - off) d' = take (p - off) (drop off b)"
      by (simp add: d'_def store_def)
    with db show ?thesis by simp
  next
    case False
    with offp show ?thesis by simp
  qed
  have res: "handle_lines cv w
          = Some (concat (map (handle_line cv w) (butlast (split_on NL s))),
                  w\<lparr>line_buffer_data := d', line_buffer_pos := line_buffer_pos w - off\<rparr>)"
    using sc off0 pos offp [unfolded p_def] mv [unfolded p_def] mv2 [unfolded p_def]
    by (rule handle_lines_shift)
  show ?thesis
    using res ld tk unfolding p_def off_def t_def
    by (intro exI [of _ d']) simp
qed


lemma store_nul:
  assumes "i + length bs < length buf"
  shows "(store buf i bs)[i + length bs := NUL]
         = take i buf @ bs @ NUL # drop (Suc (i + length bs)) buf"
proof -
  have "(store buf i bs)[i + length bs := NUL]
        = take i buf @ (bs @ drop (i + length bs) buf)[length bs := NUL]"
    using assms by (simp add: store_def list_update_append)
  also have "(bs @ drop (i + length bs) buf)[length bs := NUL]
             = bs @ (drop (i + length bs) buf)[0 := NUL]"
    by (simp add: list_update_append)
  also have "(drop (i + length bs) buf)[0 := NUL] = NUL # drop (Suc (i + length bs)) buf"
  proof -
    have "drop (i + length bs) buf = buf ! (i + length bs) # drop (Suc (i + length bs)) buf"
      using assms by (simp add: Cons_nth_drop_Suc)
    then show ?thesis by simp
  qed
  finally show ?thesis .
qed

lemma do_read_open:
  assumes fdo: "k_fds k (fd w) = Some (ino, p)"
    and pos: "line_buffer_pos w < LINE_BUFFER_SIZE"
    and len: "length (line_buffer_data w) = LINE_BUFFER_SIZE"
    and bs: "bs = take (LINE_BUFFER_SIZE - line_buffer_pos w - 1) (drop p (k_data k ino))"
    and k1: "k1 = k\<lparr>k_fds := (k_fds k)(fd w \<mapsto> (ino, p + length bs))\<rparr>"
  shows "do_read k w
         = (if bs = [] then Some (False, [], k1, w)
            else Some (True, [], k1,
                       w\<lparr>line_buffer_data :=
                           take (line_buffer_pos w) (line_buffer_data w) @ bs @ NUL
                             # drop (Suc (line_buffer_pos w + length bs)) (line_buffer_data w),
                         line_buffer_pos := line_buffer_pos w + length bs\<rparr>))"
proof -
  define n where "n = line_buffer_pos w"
  have n4: "n < 4096" using pos by (simp add: n_def LINE_BUFFER_SIZE_def)
  have "size_t_sub LINE_BUFFER_SIZE n = LINE_BUFFER_SIZE - n"
    using n4 by (intro size_t_sub_small) (simp_all add: LINE_BUFFER_SIZE_def)
  moreover have "size_t_sub (LINE_BUFFER_SIZE - n) 1 = LINE_BUFFER_SIZE - n - 1"
    using n4 by (intro size_t_sub_small) (simp_all add: LINE_BUFFER_SIZE_def)
  ultimately have cnt: "size_t_sub (size_t_sub LINE_BUFFER_SIZE n) 1 = LINE_BUFFER_SIZE - n - 1"
    by simp
  have sr: "sys_read k (fd w) (LINE_BUFFER_SIZE - n - 1) = (int (length bs), bs, k1)"
    by (simp add: sys_read_def fdo bs k1 n_def Let_def)
  have lbs: "length bs \<le> LINE_BUFFER_SIZE - n - 1"
    by (simp add: bs n_def)
  with n4 have fit: "n + length bs < 4096"
    by (simp add: LINE_BUFFER_SIZE_def)
  then have add: "size_t_add n (length bs) = n + length bs"
    by (intro size_t_add_small) simp
  have fit': "n + length bs < length (line_buffer_data w)"
    using fit len by (simp add: LINE_BUFFER_SIZE_def)
  note st = store_nul [OF fit']
  have "do_read k w
        = (if int (length bs) < 0 then Some (False, [ReadError (name w)], k1, w)
           else if int (length bs) = 0 then Some (False, [], k1, w)
           else if length (line_buffer_data w) < n + length bs
                   \<or> length (line_buffer_data w) \<le> size_t_add n (nat (int (length bs))) then None
           else Some (True, [], k1,
                      w\<lparr>line_buffer_data :=
                          (store (line_buffer_data w) n bs)[size_t_add n (nat (int (length bs))) := NUL],
                        line_buffer_pos := size_t_add n (nat (int (length bs)))\<rparr>))"
    unfolding do_read_def Let_def n_def [symmetric] cnt sr by simp
  also have "\<dots> = (if bs = [] then Some (False, [], k1, w)
            else Some (True, [], k1,
                       w\<lparr>line_buffer_data :=
                           take n (line_buffer_data w) @ bs @ NUL
                             # drop (Suc (n + length bs)) (line_buffer_data w),
                         line_buffer_pos := n + length bs\<rparr>))"
    using fit' by (simp add: add st)
  finally show ?thesis
    by (simp add: n_def)
qed


lemma last_split_on_no_sep: "c \<notin> set (last (split_on c s))"
proof (induction s)
  case Nil
  show ?case by simp
next
  case (Cons x xs)
  obtain l ls where r: "split_on c xs = l # ls"
    by (cases "split_on c xs") auto
  with Cons show ?case by (cases ls) auto
qed

lemma last_split_on_subset: "set (last (split_on c s)) \<subseteq> set s"
proof (induction s)
  case Nil
  show ?case by simp
next
  case (Cons x xs)
  obtain l ls where r: "split_on c xs = l # ls"
    by (cases "split_on c xs") auto
  with Cons show ?case by (cases ls) auto
qed

lemma hd_split_on_append:
  "c \<notin> set s \<Longrightarrow> hd (split_on c (s @ ys)) = s @ hd (split_on c ys)"
  by (induction s) auto

lemma split_on_prefix_bound:
  assumes "c \<notin> set s" and "\<forall>seg \<in> set (split_on c (s @ ys)). length seg < n"
  shows "length s < n"
proof -
  have "hd (split_on c (s @ ys)) \<in> set (split_on c (s @ ys))"
    by simp
  with assms(2) have "length (hd (split_on c (s @ ys))) < n"
    by blast
  with assms(1) show ?thesis
    by (simp add: hd_split_on_append)
qed

lemma butlast_split_on_append:
  "butlast (split_on c (xs @ ys))
   = butlast (split_on c xs) @ butlast (split_on c (last (split_on c xs) @ ys))"
  by (subst split_on_append) (simp add: butlast_append)

lemma last_split_on_append:
  "last (split_on c (xs @ ys)) = last (split_on c (last (split_on c xs) @ ys))"
  by (subst split_on_append) simp

lemma set_split_on_append:
  "set (split_on c (last (split_on c xs) @ ys)) \<subseteq> set (split_on c (xs @ ys))"
  by (subst (2) split_on_append) simp

lemma handle_line_env:
  "k_to_utf8 k' = k_to_utf8 k \<Longrightarrow> name w' = name w
   \<Longrightarrow> handle_line (k_to_utf8 k') w' = handle_line (k_to_utf8 k) w"
  by (rule ext) (simp add: handle_line_def split: option.split)

lemma do_read_feed:
  assumes fdo: "k_fds k (fd w) = Some (ino, p)"
    and len: "length (line_buffer_data w) = LINE_BUFFER_SIZE"
    and pos: "line_buffer_pos w < LINE_BUFFER_SIZE - 1"
    and bs: "bs = take (LINE_BUFFER_SIZE - line_buffer_pos w - 1) (drop p (k_data k ino))"
    and ne: "drop p (k_data k ino) \<noteq> []"
  shows "do_read k w
         = Some (True, [], k\<lparr>k_fds := (k_fds k)(fd w \<mapsto> (ino, p + length bs))\<rparr>,
                 w\<lparr>line_buffer_data :=
                     take (line_buffer_pos w) (line_buffer_data w) @ bs @ NUL
                       # drop (Suc (line_buffer_pos w + length bs)) (line_buffer_data w),
                   line_buffer_pos := line_buffer_pos w + length bs\<rparr>)"
    and "bs \<noteq> []"
    and "line_buffer_pos w + length bs < LINE_BUFFER_SIZE"
    and "length (take (line_buffer_pos w) (line_buffer_data w) @ bs @ NUL
                   # drop (Suc (line_buffer_pos w + length bs)) (line_buffer_data w))
         = LINE_BUFFER_SIZE"
proof -
  from pos have pos': "line_buffer_pos w < LINE_BUFFER_SIZE"
    by simp
  from pos ne show b: "bs \<noteq> []"
    by (simp add: bs)
  from do_read_open [OF fdo pos' len bs refl] b
  show "do_read k w
         = Some (True, [], k\<lparr>k_fds := (k_fds k)(fd w \<mapsto> (ino, p + length bs))\<rparr>,
                 w\<lparr>line_buffer_data :=
                     take (line_buffer_pos w) (line_buffer_data w) @ bs @ NUL
                       # drop (Suc (line_buffer_pos w + length bs)) (line_buffer_data w),
                   line_buffer_pos := line_buffer_pos w + length bs\<rparr>)"
    by simp
  have "length bs \<le> LINE_BUFFER_SIZE - line_buffer_pos w - 1"
    by (simp add: bs)
  with pos show fit: "line_buffer_pos w + length bs < LINE_BUFFER_SIZE"
    by arith
  with len pos' show "length (take (line_buffer_pos w) (line_buffer_data w) @ bs @ NUL
                   # drop (Suc (line_buffer_pos w + length bs)) (line_buffer_data w))
         = LINE_BUFFER_SIZE"
    by simp
qed


lemma drop_length_take: "drop (length (take n xs)) xs = drop n xs"
  by (cases "n \<le> length xs") (simp_all add: min_def)

lemma read_loop_stop:
  "do_read k w = Some (False, o1, k1, w1) \<Longrightarrow> read_loop k w = Some (o1, k1, w1)"
  by (simp add: read_loop.simps [of k w])

lemma read_loop_step:
  "do_read k w = Some (True, o1, k1, w1) \<Longrightarrow> handle_lines (k_to_utf8 k1) w1 = Some (o2, w2) \<Longrightarrow>
   read_loop k1 w2 = Some (o3, k3, w3) \<Longrightarrow> read_loop k w = Some (o1 @ o2 @ o3, k3, w3)"
  by (simp add: read_loop.simps [of k w])

lemma read_loop_lines:
  assumes "k_fds k (fd w) = Some (ino, p)"
    and "length (line_buffer_data w) = LINE_BUFFER_SIZE"
    and "line_buffer_pos w < LINE_BUFFER_SIZE - 1"
    and "r = take (line_buffer_pos w) (line_buffer_data w)"
    and "pend = drop p (k_data k ino)"
    and "NUL \<notin> set r" and "NL \<notin> set r" and "NUL \<notin> set pend"
    and "\<forall>seg \<in> set (split_on NL (r @ pend)). length seg < LINE_BUFFER_SIZE - 1"
  shows "\<exists>d. read_loop k w
              = Some (concat (map (handle_line (k_to_utf8 k) w) (butlast (split_on NL (r @ pend)))),
                      k\<lparr>k_fds := (k_fds k)(fd w \<mapsto> (ino, p + length pend))\<rparr>,
                      w\<lparr>line_buffer_data := d,
                        line_buffer_pos := length (last (split_on NL (r @ pend)))\<rparr>)
           \<and> length d = LINE_BUFFER_SIZE
           \<and> take (length (last (split_on NL (r @ pend)))) d = last (split_on NL (r @ pend))"
  using assms
proof (induction "length pend" arbitrary: k w p r pend rule: less_induct)
  case less
  note fdo = less.prems(1) and len = less.prems(2) and pos = less.prems(3)
    and r = less.prems(4) and pend = less.prems(5) and nulr = less.prems(6)
    and nlr = less.prems(7) and nulp = less.prems(8) and seg = less.prems(9)
  have lr: "length r = line_buffer_pos w"
    using len pos by (simp add: r)
  show ?case
  proof (cases "pend = []")
    case True
    then have bs: "[] = take (LINE_BUFFER_SIZE - line_buffer_pos w - 1) (drop p (k_data k ino))"
      by (simp add: pend)
    from pos have pos': "line_buffer_pos w < LINE_BUFFER_SIZE" by simp
    from do_read_open [OF fdo pos' len bs refl]
    have "do_read k w = Some (False, [], k\<lparr>k_fds := (k_fds k)(fd w \<mapsto> (ino, p))\<rparr>, w)"
      by simp
    then have "read_loop k w = Some ([], k\<lparr>k_fds := (k_fds k)(fd w \<mapsto> (ino, p))\<rparr>, w)"
      by (rule read_loop_stop)
    moreover have "w\<lparr>line_buffer_data := line_buffer_data w, line_buffer_pos := length r\<rparr> = w"
      by (simp add: lr)
    ultimately show ?thesis
      using True nlr
      by (intro exI [of _ "line_buffer_data w"]) (simp add: split_on_no_sep len lr r [symmetric])
  next
    case False
    define bs where "bs = take (LINE_BUFFER_SIZE - line_buffer_pos w - 1) (drop p (k_data k ino))"
    define rest where "rest = drop (Suc (line_buffer_pos w + length bs)) (line_buffer_data w)"
    define k1 where "k1 = k\<lparr>k_fds := (k_fds k)(fd w \<mapsto> (ino, p + length bs))\<rparr>"
    define s where "s = r @ bs"
    define w1 where "w1 = w\<lparr>line_buffer_data := s @ NUL # rest,
                            line_buffer_pos := line_buffer_pos w + length bs\<rparr>"
    define pend2 where "pend2 = drop (length bs) pend"
    from False have ne: "drop p (k_data k ino) \<noteq> []"
      by (simp add: pend)
    note rd = do_read_feed [OF fdo len pos bs_def ne]
    have dr: "do_read k w = Some (True, [], k1, w1)"
      using rd(1) by (simp add: k1_def w1_def s_def rest_def r)
    have bsne: "bs \<noteq> []" by (rule rd(2))
    have pos1: "line_buffer_pos w1 < LINE_BUFFER_SIZE"
      using rd(3) by (simp add: w1_def)
    have len1: "length (line_buffer_data w1) = LINE_BUFFER_SIZE"
      using rd(4) by (simp add: w1_def s_def rest_def r)
    have dat1: "line_buffer_data w1 = s @ NUL # rest"
      by (simp add: w1_def)
    have ls: "length s = line_buffer_pos w1"
      by (simp add: s_def w1_def lr)
    have split: "pend = bs @ pend2"
      unfolding bs_def pend2_def pend [symmetric] drop_length_take by simp
    then have whole: "r @ pend = s @ pend2"
      by (simp add: s_def)
    have nuls: "NUL \<notin> set s" and nulp2: "NUL \<notin> set pend2"
      using nulr nulp split by (auto simp: s_def)
    have fd1: "k_fds k1 (fd w1) = Some (ino, p + length bs)"
      by (simp add: k1_def w1_def)
    have pend2': "pend2 = drop (p + length bs) (k_data k1 ino)"
      by (simp add: pend2_def pend k1_def add.commute)
    have shorter: "length pend2 < length pend"
      using bsne split by simp
    have hl1: "handle_line (k_to_utf8 k1) w1 = handle_line (k_to_utf8 k) w"
      by (rule handle_line_env) (simp_all add: k1_def w1_def)
    have kfin: "\<And>m. k1\<lparr>k_fds := (k_fds k1)(fd w1 \<mapsto> (ino, p + length bs + length pend2))\<rparr>
               = k\<lparr>k_fds := (k_fds k)(fd w \<mapsto> (ino, p + length pend))\<rparr>"
      using split by (simp add: k1_def w1_def add.assoc)
    show ?thesis
    proof (cases "NL \<in> set s")
      case False
      from seg whole have "\<forall>seg \<in> set (split_on NL (s @ pend2)). length seg < LINE_BUFFER_SIZE - 1"
        by simp
      with False have small: "length s < LINE_BUFFER_SIZE - 1"
        by (rule split_on_prefix_bound)
      with handle_lines_no_newline [OF dat1 nuls False]
      have hl: "handle_lines (k_to_utf8 k1) w1 = Some ([], w1)"
        by (simp add: ls)
      have tk: "s = take (line_buffer_pos w1) (line_buffer_data w1)"
        by (simp add: dat1 ls [symmetric])
      from small have pos1': "line_buffer_pos w1 < LINE_BUFFER_SIZE - 1"
        by (simp add: ls)
      from seg whole have seg': "\<forall>seg \<in> set (split_on NL (s @ pend2)). length seg < LINE_BUFFER_SIZE - 1"
        by simp
      from less.hyps [OF shorter fd1 len1 pos1' tk pend2' nuls False nulp2 seg']
      obtain d where
        rl: "read_loop k1 w1
             = Some (concat (map (handle_line (k_to_utf8 k1) w1) (butlast (split_on NL (s @ pend2)))),
                     k1\<lparr>k_fds := (k_fds k1)(fd w1 \<mapsto> (ino, p + length bs + length pend2))\<rparr>,
                     w1\<lparr>line_buffer_data := d,
                        line_buffer_pos := length (last (split_on NL (s @ pend2)))\<rparr>)"
        and ld: "length d = LINE_BUFFER_SIZE"
        and td: "take (length (last (split_on NL (s @ pend2)))) d = last (split_on NL (s @ pend2))"
        by blast
      have "read_loop k w
            = Some (concat (map (handle_line (k_to_utf8 k) w) (butlast (split_on NL (r @ pend)))),
                    k\<lparr>k_fds := (k_fds k)(fd w \<mapsto> (ino, p + length pend))\<rparr>,
                    w\<lparr>line_buffer_data := d,
                      line_buffer_pos := length (last (split_on NL (r @ pend)))\<rparr>)"
        using read_loop_step [OF dr hl rl]
        unfolding kfin whole hl1
        by (simp add: w1_def)
      with ld td whole show ?thesis
        by (intro exI [of _ d]) simp
    next
      case True
      from handle_lines_newline [OF len1 pos1 dat1 nuls True] ls
      obtain d1 where
        hl: "handle_lines (k_to_utf8 k1) w1
             = Some (concat (map (handle_line (k_to_utf8 k1) w1) (butlast (split_on NL s))),
                     w1\<lparr>line_buffer_data := d1,
                        line_buffer_pos := line_buffer_pos w1
                                           - (length s - length (last (split_on NL s)))\<rparr>)"
        and ld1: "length d1 = LINE_BUFFER_SIZE"
        and td1: "take (line_buffer_pos w1 - (length s - length (last (split_on NL s)))) d1
                  = take (line_buffer_pos w1 - (length s - length (last (split_on NL s))))
                      (last (split_on NL s) @ NUL # rest)"
        by auto
      define t where "t = last (split_on NL s)"
      define w2 where "w2 = w1\<lparr>line_buffer_data := d1, line_buffer_pos := length t\<rparr>"
      have tl: "length t < length s"
        using True by (simp add: t_def last_split_on_shorter)
      then have idx: "line_buffer_pos w1 - (length s - length (last (split_on NL s))) = length t"
        by (simp add: ls [symmetric] t_def)
      have hl2: "handle_lines (k_to_utf8 k1) w1 = Some (concat (map (handle_line (k_to_utf8 k1) w1) (butlast (split_on NL s))), w2)"
        using hl by (simp add: idx w2_def)
      have tk2: "t = take (line_buffer_pos w2) (line_buffer_data w2)"
        using td1 by (simp add: idx w2_def t_def)
      have pos2: "line_buffer_pos w2 < LINE_BUFFER_SIZE - 1"
        using tl pos1 by (simp add: w2_def ls)
      have len2: "length (line_buffer_data w2) = LINE_BUFFER_SIZE"
        by (simp add: w2_def ld1)
      have fd2: "k_fds k1 (fd w2) = Some (ino, p + length bs)"
        using fd1 by (simp add: w2_def)
      have nult: "NUL \<notin> set t"
        using nuls last_split_on_subset [of NL s] by (auto simp: t_def)
      have nlt: "NL \<notin> set t"
        by (simp add: t_def last_split_on_no_sep)
      have seg2: "\<forall>seg \<in> set (split_on NL (t @ pend2)). length seg < LINE_BUFFER_SIZE - 1"
        using seg whole set_split_on_append [of NL s pend2] by (auto simp: t_def)
      from less.hyps [OF shorter fd2 len2 pos2 tk2 pend2' nult nlt nulp2 seg2]
      obtain d where
        rl: "read_loop k1 w2
             = Some (concat (map (handle_line (k_to_utf8 k1) w2) (butlast (split_on NL (t @ pend2)))),
                     k1\<lparr>k_fds := (k_fds k1)(fd w2 \<mapsto> (ino, p + length bs + length pend2))\<rparr>,
                     w2\<lparr>line_buffer_data := d,
                        line_buffer_pos := length (last (split_on NL (t @ pend2)))\<rparr>)"
        and ld: "length d = LINE_BUFFER_SIZE"
        and td: "take (length (last (split_on NL (t @ pend2)))) d = last (split_on NL (t @ pend2))"
        by blast
      have fdw2: "fd w2 = fd w1" by (simp add: w2_def)
      have hl3: "handle_line (k_to_utf8 k1) w2 = handle_line (k_to_utf8 k) w"
        by (rule handle_line_env) (simp_all add: k1_def w1_def w2_def)
      have bl: "butlast (split_on NL (r @ pend))
                = butlast (split_on NL s) @ butlast (split_on NL (t @ pend2))"
        unfolding whole t_def by (rule butlast_split_on_append)
      have la: "last (split_on NL (r @ pend)) = last (split_on NL (t @ pend2))"
        unfolding whole t_def by (rule last_split_on_append)
      have "read_loop k w
            = Some (concat (map (handle_line (k_to_utf8 k) w) (butlast (split_on NL (r @ pend)))),
                    k\<lparr>k_fds := (k_fds k)(fd w \<mapsto> (ino, p + length pend))\<rparr>,
                    w\<lparr>line_buffer_data := d,
                      line_buffer_pos := length (last (split_on NL (r @ pend)))\<rparr>)"
        using read_loop_step [OF dr hl2 rl]
        unfolding fdw2 kfin bl la hl1 hl3
        by (simp add: w1_def w2_def)
      with ld td la show ?thesis
        by (intro exI [of _ d]) simp
    qed
  qed
qed

section \<open>Lemmas on feeding chunks\<close>

lemma lines_of_append: "lines_of (a @ b) = lines_of a @ lines_of b"
  by (induction a rule: lines_of.induct) auto

lemma lines_of_handle_line: "lines_of (handle_line cv w l) = [l]"
  by (simp add: handle_line_def)

lemma lines_of_handle_lines: "lines_of (concat (map (handle_line cv w) ls)) = ls"
  by (induction ls) (auto simp: lines_of_append lines_of_handle_line)

lemma split_on_prefix_segments:
  assumes "\<forall>seg \<in> set (split_on c (xs @ ys)). length seg < n"
  shows "\<forall>seg \<in> set (split_on c xs). length seg < n"
proof
  fix seg assume "seg \<in> set (split_on c xs)"
  then have "seg \<in> set (butlast (split_on c xs)) \<or> seg = last (split_on c xs)"
    by (metis append_butlast_last_id in_set_conv_decomp_first rotate1.simps(2) set_ConsD set_rotate1 split_on_nonempty)
  then show "length seg < n"
  proof
    assume "seg \<in> set (butlast (split_on c xs))"
    then have "seg \<in> set (split_on c (xs @ ys))"
      by (subst split_on_append) simp
    with assms show ?thesis by blast
  next
    assume s: "seg = last (split_on c xs)"
    have "\<forall>g \<in> set (split_on c (last (split_on c xs) @ ys)). length g < n"
      using assms set_split_on_append [of c xs ys] by blast
    with last_split_on_no_sep [of c xs] show ?thesis
      unfolding s by (rule split_on_prefix_bound)
  qed
qed

lemma read_watch_plain:
  assumes fdo: "k_fds k (fd w) = Some (ino, p)"
    and off: "file_offset w \<le> int (length (k_data k ino))"
    and rl: "read_loop k w = Some (o1, k1, w1)"
    and fd1: "fd w1 = fd w"
    and k1: "k_fds k1 (fd w) = Some (ino, q)"
  shows "read_watch k w = Some (o1, k1, w1\<lparr>file_offset := int q\<rparr>)"
proof -
  have "(k_fds k1)(fd w \<mapsto> (ino, q)) = k_fds k1"
    using k1 by (simp add: map_upd_triv)
  then have "sys_lseek k1 (fd w) 0 SEEK_CUR = (int q, k1)"
    by (simp add: sys_lseek_def k1)
  then show ?thesis
    using off by (simp add: read_watch_def sys_fstat_size_def fdo rl fd1)
qed


lemma splits_of_append: "splits_of (a @ b) = splits_of a + splits_of b"
  by (induction a rule: splits_of.induct) auto

lemma splits_of_handle_lines: "splits_of (concat (map (handle_line cv w) ls)) = 0"
  by (induction ls) (auto simp: splits_of_append handle_line_def)

lemma feed_all_lines:
  assumes "k_fds k (fd w) = Some (ino, length (k_data k ino))"
    and "file_offset w \<le> int (length (k_data k ino))"
    and "length (line_buffer_data w) = LINE_BUFFER_SIZE"
    and "line_buffer_pos w < LINE_BUFFER_SIZE - 1"
    and "r = take (line_buffer_pos w) (line_buffer_data w)"
    and "NUL \<notin> set r" and "NL \<notin> set r"
    and "\<forall>c \<in> set cs. NUL \<notin> set c"
    and "\<forall>seg \<in> set (split_on NL (r @ concat cs)). length seg < LINE_BUFFER_SIZE - 1"
  shows "\<exists>out k' w'. feed_all k w ino cs = Some (out, k', w')
           \<and> lines_of out = butlast (split_on NL (r @ concat cs))
           \<and> splits_of out = 0
           \<and> take (line_buffer_pos w') (line_buffer_data w') = last (split_on NL (r @ concat cs))
           \<and> line_buffer_pos w' = length (last (split_on NL (r @ concat cs)))"
  using assms
proof (induction cs arbitrary: k w r)
  case Nil
  then show ?case
    by (simp add: split_on_no_sep)
next
  case (Cons c cs)
  note fdo = Cons.prems(1) and off = Cons.prems(2) and len = Cons.prems(3) and pos = Cons.prems(4)
    and r = Cons.prems(5) and nulr = Cons.prems(6) and nlr = Cons.prems(7)
    and nulc = Cons.prems(8) and seg = Cons.prems(9)
  define ka where "ka = env_append k ino c"
  define old where "old = k_data k ino"
  define t where "t = last (split_on NL (r @ c))"
  have fda: "k_fds ka (fd w) = Some (ino, length old)"
    using fdo by (simp add: ka_def env_append_def old_def)
  have dataa: "k_data ka ino = old @ c"
    by (simp add: ka_def env_append_def old_def)
  have pend: "c = drop (length old) (k_data ka ino)"
    by (simp add: dataa)
  have nulc': "NUL \<notin> set c"
    using nulc by simp
  from seg have segall: "\<forall>seg \<in> set (split_on NL ((r @ c) @ concat cs)). length seg < LINE_BUFFER_SIZE - 1"
    by simp
  then have seg1: "\<forall>seg \<in> set (split_on NL (r @ c)). length seg < LINE_BUFFER_SIZE - 1"
    by (rule split_on_prefix_segments)
  from read_loop_lines [OF fda len pos r pend nulr nlr nulc' seg1]
  obtain d where
    rl: "read_loop ka w
         = Some (concat (map (handle_line (k_to_utf8 ka) w) (butlast (split_on NL (r @ c)))),
                 ka\<lparr>k_fds := (k_fds ka)(fd w \<mapsto> (ino, length old + length c))\<rparr>,
                 w\<lparr>line_buffer_data := d, line_buffer_pos := length t\<rparr>)"
    and ld: "length d = LINE_BUFFER_SIZE"
    and td: "take (length t) d = t"
    unfolding t_def by blast
  define k1 where "k1 = ka\<lparr>k_fds := (k_fds ka)(fd w \<mapsto> (ino, length old + length c))\<rparr>"
  define w1 where "w1 = w\<lparr>line_buffer_data := d, line_buffer_pos := length t,
                          file_offset := int (length old + length c)\<rparr>"
  have offa: "file_offset w \<le> int (length (k_data ka ino))"
    using off by (simp add: dataa old_def)
  have "read_watch ka w
        = Some (concat (map (handle_line (k_to_utf8 ka) w) (butlast (split_on NL (r @ c)))), k1,
                (w\<lparr>line_buffer_data := d, line_buffer_pos := length t\<rparr>)
                  \<lparr>file_offset := int (length old + length c)\<rparr>)"
    using fda offa rl [folded k1_def]
    by (rule read_watch_plain) (simp_all add: k1_def)
  then have rw: "read_watch ka w
        = Some (concat (map (handle_line (k_to_utf8 ka) w) (butlast (split_on NL (r @ c)))), k1, w1)"
    by (simp add: w1_def)
  have tin: "t \<in> set (split_on NL (r @ c))"
    by (simp add: t_def)
  have fd1: "k_fds k1 (fd w1) = Some (ino, length (k_data k1 ino))"
    by (simp add: k1_def w1_def dataa)
  have off1: "file_offset w1 \<le> int (length (k_data k1 ino))"
    by (simp add: k1_def w1_def dataa)
  have len1: "length (line_buffer_data w1) = LINE_BUFFER_SIZE"
    by (simp add: w1_def ld)
  have pos1: "line_buffer_pos w1 < LINE_BUFFER_SIZE - 1"
    using seg1 tin by (simp add: w1_def)
  have r1: "t = take (line_buffer_pos w1) (line_buffer_data w1)"
    by (simp add: w1_def td)
  have nult: "NUL \<notin> set t"
    using nulr nulc' last_split_on_subset [of NL "r @ c"] by (auto simp: t_def)
  have nlt: "NL \<notin> set t"
    by (simp add: t_def last_split_on_no_sep)
  have nulcs: "\<forall>c \<in> set cs. NUL \<notin> set c"
    using nulc by simp
  have seg2: "\<forall>seg \<in> set (split_on NL (t @ concat cs)). length seg < LINE_BUFFER_SIZE - 1"
    using segall set_split_on_append [of NL "r @ c" "concat cs"] unfolding t_def by blast
  from Cons.IH [OF fd1 off1 len1 pos1 r1 nult nlt nulcs seg2]
  obtain o2 k2 w2 where
    fa: "feed_all k1 w1 ino cs = Some (o2, k2, w2)"
    and lo: "lines_of o2 = butlast (split_on NL (t @ concat cs))"
    and so: "splits_of o2 = 0"
    and tk: "take (line_buffer_pos w2) (line_buffer_data w2) = last (split_on NL (t @ concat cs))"
    and ps: "line_buffer_pos w2 = length (last (split_on NL (t @ concat cs)))"
    by blast
  have bl: "butlast (split_on NL (r @ concat (c # cs)))
            = butlast (split_on NL (r @ c)) @ butlast (split_on NL (t @ concat cs))"
    using butlast_split_on_append [of NL "r @ c" "concat cs"] by (simp add: t_def)
  have la: "last (split_on NL (r @ concat (c # cs))) = last (split_on NL (t @ concat cs))"
    using last_split_on_append [of NL "r @ c" "concat cs"] by (simp add: t_def)
  have "feed_all k w ino (c # cs)
        = Some (concat (map (handle_line (k_to_utf8 ka) w) (butlast (split_on NL (r @ c)))) @ o2, k2, w2)"
    by (simp add: ka_def [symmetric] rw fa)
  with lo so tk ps show ?case
    unfolding bl la
    by (simp add: lines_of_append lines_of_handle_lines splits_of_append splits_of_handle_lines)
qed


lemma last_split_on_terminated:
  "s = [] \<or> last s = c \<Longrightarrow> last (split_on c s) = []"
proof (induction s)
  case Nil
  show ?case by simp
next
  case (Cons x xs)
  show ?case
  proof (cases "xs = []")
    case True
    with Cons.prems show ?thesis by simp
  next
    case False
    with Cons have l: "last (split_on c xs) = []" by simp
    obtain l ls where r: "split_on c xs = l # ls"
      by (cases "split_on c xs") auto
    from False have "tl (split_on c xs) \<noteq> [] \<or> hd (split_on c xs) \<noteq> []"
      by (cases xs) (auto split: if_splits)
    with l r show ?thesis
      by (cases ls) auto
  qed
qed

lemma k_tail_fd: "k_fds k_tail (fd w_tail) = Some (3, length (k_data k_tail 3))"
  by (simp add: k_tail_def w_tail_def)

lemma w_tail_facts:
  "file_offset w_tail \<le> int (length (k_data k_tail 3))"
  "length (line_buffer_data w_tail) = LINE_BUFFER_SIZE"
  "line_buffer_pos w_tail = 0"
  by (simp_all add: k_tail_def w_tail_def)

lemma feed_nul_first:
  "\<exists>k' w'. feed_all k_tail w_tail 3 [[NUL, NL]] = Some ([], k', w')"
proof -
  define ka where "ka = env_append k_tail 3 [NUL, NL]"
  define bs where "bs = take (LINE_BUFFER_SIZE - line_buffer_pos w_tail - 1) (drop 0 (k_data ka 3))"
  define k1 where "k1 = ka\<lparr>k_fds := (k_fds ka)(fd w_tail \<mapsto> (3, 0 + length bs))\<rparr>"
  define w1 where "w1 = w_tail\<lparr>line_buffer_data :=
                           take (line_buffer_pos w_tail) (line_buffer_data w_tail) @ bs @ NUL
                             # drop (Suc (line_buffer_pos w_tail + length bs)) (line_buffer_data w_tail),
                         line_buffer_pos := line_buffer_pos w_tail + length bs\<rparr>"
  have bs: "bs = [NUL, NL]"
    by (simp add: bs_def ka_def env_append_def k_tail_def w_tail_def LINE_BUFFER_SIZE_def)
  have fda: "k_fds ka (fd w_tail) = Some (3, 0)"
    by (simp add: ka_def env_append_def k_tail_def w_tail_def)
  have pos: "line_buffer_pos w_tail < LINE_BUFFER_SIZE"
    by (simp add: w_tail_def LINE_BUFFER_SIZE_def)
  have len: "length (line_buffer_data w_tail) = LINE_BUFFER_SIZE"
    by (simp add: w_tail_def)
  from do_read_open [OF fda pos len bs_def k1_def]
  have dr: "do_read ka w_tail = Some (True, [], k1, w1)"
    by (simp add: bs w1_def)
  have dat1: "line_buffer_data w1 = [] @ NUL # (NL # NUL # replicate 4093 NUL)"
    by (simp add: w1_def bs w_tail_def LINE_BUFFER_SIZE_def)
  have p1: "line_buffer_pos w1 = 2"
    by (simp add: w1_def bs w_tail_def)
  from handle_lines_no_newline [OF dat1]
  have hl: "handle_lines (k_to_utf8 k1) w1 = Some ([], w1)"
    by (simp add: p1 LINE_BUFFER_SIZE_def)
  have fd1: "k_fds k1 (fd w1) = Some (3, 2)"
    by (simp add: k1_def w1_def bs)
  have pos1: "line_buffer_pos w1 < LINE_BUFFER_SIZE"
    by (simp add: p1 LINE_BUFFER_SIZE_def)
  have len1: "length (line_buffer_data w1) = LINE_BUFFER_SIZE"
    by (simp add: dat1 LINE_BUFFER_SIZE_def)
  have e: "[] = take (LINE_BUFFER_SIZE - line_buffer_pos w1 - 1) (drop 2 (k_data k1 3))"
    by (simp add: k1_def ka_def env_append_def k_tail_def)
  from do_read_open [OF fd1 pos1 len1 e refl]
  have dr1: "do_read k1 w1 = Some (False, [], k1\<lparr>k_fds := (k_fds k1)(fd w1 \<mapsto> (3, 2))\<rparr>, w1)"
    by simp
  from read_loop_step [OF dr hl read_loop_stop [OF dr1]]
  have rl: "read_loop ka w_tail = Some ([], k1\<lparr>k_fds := (k_fds k1)(fd w1 \<mapsto> (3, 2))\<rparr>, w1)"
    by simp
  have off: "file_offset w_tail \<le> int (length (k_data ka 3))"
    by (simp add: w_tail_def)
  have "read_watch ka w_tail
        = Some ([], k1\<lparr>k_fds := (k_fds k1)(fd w1 \<mapsto> (3, 2))\<rparr>, w1\<lparr>file_offset := int 2\<rparr>)"
    using fda off rl
    by (rule read_watch_plain) (simp_all add: w1_def)
  then show ?thesis
    by (simp add: ka_def)
qed


lemma read_loop_forced:
  assumes "k_fds k (fd w) = Some (ino, p)"
    and "length (line_buffer_data w) = LINE_BUFFER_SIZE"
    and "line_buffer_pos w < LINE_BUFFER_SIZE - 1"
    and "r = take (line_buffer_pos w) (line_buffer_data w)"
    and "pend = drop p (k_data k ino)"
    and "NUL \<notin> set r" and "NL \<notin> set r" and "NUL \<notin> set pend" and "NL \<notin> set pend"
  shows "\<exists>ls d n. read_loop k w
              = Some (concat (map (\<lambda>l. LineTooLong (name w) # handle_line (k_to_utf8 k) w l) ls),
                      k\<lparr>k_fds := (k_fds k)(fd w \<mapsto> (ino, p + length pend))\<rparr>,
                      w\<lparr>line_buffer_data := d, line_buffer_pos := n\<rparr>)
           \<and> length d = LINE_BUFFER_SIZE \<and> n < LINE_BUFFER_SIZE - 1
           \<and> (\<forall>l \<in> set ls. length l = LINE_BUFFER_SIZE - 1)
           \<and> concat ls @ take n d = r @ pend"
  using assms
proof (induction "length pend" arbitrary: k w p r pend rule: less_induct)
  case less
  note fdo = less.prems(1) and len = less.prems(2) and pos = less.prems(3)
    and r = less.prems(4) and pend = less.prems(5) and nulr = less.prems(6)
    and nlr = less.prems(7) and nulp = less.prems(8) and nlp = less.prems(9)
  have lr: "length r = line_buffer_pos w"
    using len pos by (simp add: r)
  show ?case
  proof (cases "pend = []")
    case True
    then have bs: "[] = take (LINE_BUFFER_SIZE - line_buffer_pos w - 1) (drop p (k_data k ino))"
      by (simp add: pend)
    from pos have pos': "line_buffer_pos w < LINE_BUFFER_SIZE" by simp
    from do_read_open [OF fdo pos' len bs refl]
    have "do_read k w = Some (False, [], k\<lparr>k_fds := (k_fds k)(fd w \<mapsto> (ino, p))\<rparr>, w)"
      by simp
    then have "read_loop k w = Some ([], k\<lparr>k_fds := (k_fds k)(fd w \<mapsto> (ino, p))\<rparr>, w)"
      by (rule read_loop_stop)
    moreover have "w\<lparr>line_buffer_data := line_buffer_data w, line_buffer_pos := line_buffer_pos w\<rparr> = w"
      by simp
    ultimately show ?thesis
      using True pos
      by (intro exI [of _ "[]"] exI [of _ "line_buffer_data w"] exI [of _ "line_buffer_pos w"])
         (simp add: len r [symmetric])
  next
    case False
    define bs where "bs = take (LINE_BUFFER_SIZE - line_buffer_pos w - 1) (drop p (k_data k ino))"
    define rest where "rest = drop (Suc (line_buffer_pos w + length bs)) (line_buffer_data w)"
    define k1 where "k1 = k\<lparr>k_fds := (k_fds k)(fd w \<mapsto> (ino, p + length bs))\<rparr>"
    define s where "s = r @ bs"
    define w1 where "w1 = w\<lparr>line_buffer_data := s @ NUL # rest,
                            line_buffer_pos := line_buffer_pos w + length bs\<rparr>"
    define pend2 where "pend2 = drop (length bs) pend"
    from False have ne: "drop p (k_data k ino) \<noteq> []"
      by (simp add: pend)
    note rd = do_read_feed [OF fdo len pos bs_def ne]
    have dr: "do_read k w = Some (True, [], k1, w1)"
      using rd(1) by (simp add: k1_def w1_def s_def rest_def r)
    have bsne: "bs \<noteq> []" by (rule rd(2))
    have pos1: "line_buffer_pos w1 < LINE_BUFFER_SIZE"
      using rd(3) by (simp add: w1_def)
    have len1: "length (line_buffer_data w1) = LINE_BUFFER_SIZE"
      using rd(4) by (simp add: w1_def s_def rest_def r)
    have dat1: "line_buffer_data w1 = s @ NUL # rest"
      by (simp add: w1_def)
    have ls: "length s = line_buffer_pos w1"
      by (simp add: s_def w1_def lr)
    have split: "pend = bs @ pend2"
      unfolding bs_def pend2_def pend [symmetric] drop_length_take by simp
    then have whole: "r @ pend = s @ pend2"
      by (simp add: s_def)
    have nuls: "NUL \<notin> set s" and nulp2: "NUL \<notin> set pend2"
      using nulr nulp split by (auto simp: s_def)
    have nls: "NL \<notin> set s" and nlp2: "NL \<notin> set pend2"
      using nlr nlp split by (auto simp: s_def)
    have pend2': "pend2 = drop (p + length bs) (k_data k1 ino)"
      by (simp add: pend2_def pend k1_def add.commute)
    have shorter: "length pend2 < length pend"
      using bsne split by simp
    note hl0 = handle_lines_no_newline [OF dat1 nuls nls]
    show ?thesis
    proof (cases "LINE_BUFFER_SIZE - 1 \<le> line_buffer_pos w1")
      case False
      with hl0 have hl: "handle_lines (k_to_utf8 k1) w1 = Some ([], w1)"
        by simp
      have fd1: "k_fds k1 (fd w1) = Some (ino, p + length bs)"
        by (simp add: k1_def w1_def)
      have tk: "s = take (line_buffer_pos w1) (line_buffer_data w1)"
        by (simp add: dat1 ls [symmetric])
      from False have pos1': "line_buffer_pos w1 < LINE_BUFFER_SIZE - 1"
        by simp
      from less.hyps [OF shorter fd1 len1 pos1' tk pend2' nuls nls nulp2 nlp2]
      obtain ls2 d n where
        rl: "read_loop k1 w1
             = Some (concat (map (\<lambda>l. LineTooLong (name w1) # handle_line (k_to_utf8 k1) w1 l) ls2),
                     k1\<lparr>k_fds := (k_fds k1)(fd w1 \<mapsto> (ino, p + length bs + length pend2))\<rparr>,
                     w1\<lparr>line_buffer_data := d, line_buffer_pos := n\<rparr>)"
        and ld: "length d = LINE_BUFFER_SIZE" and n: "n < LINE_BUFFER_SIZE - 1"
        and all: "\<forall>l \<in> set ls2. length l = LINE_BUFFER_SIZE - 1"
        and cat: "concat ls2 @ take n d = s @ pend2"
        by blast
      have kfin: "k1\<lparr>k_fds := (k_fds k1)(fd w1 \<mapsto> (ino, p + length bs + length pend2))\<rparr>
                 = k\<lparr>k_fds := (k_fds k)(fd w \<mapsto> (ino, p + length pend))\<rparr>"
        using split by (simp add: k1_def w1_def add.assoc)
      have nm: "name w1 = name w" by (simp add: w1_def)
      have hl1: "handle_line (k_to_utf8 k1) w1 = handle_line (k_to_utf8 k) w"
        by (rule handle_line_env) (simp_all add: k1_def w1_def)
      have "read_loop k w
            = Some (concat (map (\<lambda>l. LineTooLong (name w) # handle_line (k_to_utf8 k) w l) ls2),
                    k\<lparr>k_fds := (k_fds k)(fd w \<mapsto> (ino, p + length pend))\<rparr>,
                    w\<lparr>line_buffer_data := d, line_buffer_pos := n\<rparr>)"
        using read_loop_step [OF dr hl rl]
        unfolding kfin nm hl1
        by (simp add: w1_def)
      with ld n all cat whole show ?thesis
        by (intro exI [of _ ls2] exI [of _ d] exI [of _ n]) simp
    next
      case True
      define w2 where "w2 = w1\<lparr>line_buffer_pos := 0\<rparr>"
      from True hl0 have hl: "handle_lines (k_to_utf8 k1) w1
                         = Some ([LineTooLong (name w1)] @ handle_line (k_to_utf8 k1) w1 s, w2)"
        by (simp add: w2_def)
      from True pos1 have full: "length s = LINE_BUFFER_SIZE - 1"
        unfolding ls by arith
      have fd2: "k_fds k1 (fd w2) = Some (ino, p + length bs)"
        by (simp add: k1_def w1_def w2_def)
      have len2: "length (line_buffer_data w2) = LINE_BUFFER_SIZE"
        using len1 by (simp add: w2_def)
      have pos2: "line_buffer_pos w2 < LINE_BUFFER_SIZE - 1"
        by (simp add: w2_def LINE_BUFFER_SIZE_def)
      have tk: "[] = take (line_buffer_pos w2) (line_buffer_data w2)"
        by (simp add: w2_def)
      from less.hyps [OF shorter fd2 len2 pos2 tk pend2' _ _ nulp2 nlp2]
      obtain ls2 d n where
        rl: "read_loop k1 w2
             = Some (concat (map (\<lambda>l. LineTooLong (name w2) # handle_line (k_to_utf8 k1) w2 l) ls2),
                     k1\<lparr>k_fds := (k_fds k1)(fd w2 \<mapsto> (ino, p + length bs + length pend2))\<rparr>,
                     w2\<lparr>line_buffer_data := d, line_buffer_pos := n\<rparr>)"
        and ld: "length d = LINE_BUFFER_SIZE" and n: "n < LINE_BUFFER_SIZE - 1"
        and all: "\<forall>l \<in> set ls2. length l = LINE_BUFFER_SIZE - 1"
        and cat: "concat ls2 @ take n d = [] @ pend2"
        by auto
      have kfin: "k1\<lparr>k_fds := (k_fds k1)(fd w2 \<mapsto> (ino, p + length bs + length pend2))\<rparr>
                 = k\<lparr>k_fds := (k_fds k)(fd w \<mapsto> (ino, p + length pend))\<rparr>"
        using split by (simp add: k1_def w1_def w2_def add.assoc)
      have nm: "name w1 = name w" "name w2 = name w" by (simp_all add: w1_def w2_def)
      have hl1: "handle_line (k_to_utf8 k1) w1 = handle_line (k_to_utf8 k) w"
        by (rule handle_line_env) (simp_all add: k1_def w1_def)
      have hl3: "handle_line (k_to_utf8 k1) w2 = handle_line (k_to_utf8 k) w"
        by (rule handle_line_env) (simp_all add: k1_def w1_def w2_def)
      have "read_loop k w
            = Some (concat (map (\<lambda>l. LineTooLong (name w) # handle_line (k_to_utf8 k) w l) (s # ls2)),
                    k\<lparr>k_fds := (k_fds k)(fd w \<mapsto> (ino, p + length pend))\<rparr>,
                    w\<lparr>line_buffer_data := d, line_buffer_pos := n\<rparr>)"
        using read_loop_step [OF dr hl rl]
        unfolding kfin nm hl1 hl3
        by (simp add: w1_def w2_def)
      with ld n all cat whole full show ?thesis
        by (intro exI [of _ "s # ls2"] exI [of _ d] exI [of _ n]) simp
    qed
  qed
qed


lemma lines_of_forced:
  "lines_of (concat (map (\<lambda>l. LineTooLong nm # handle_line cv w l) ls)) = ls"
  by (induction ls) (auto simp: lines_of_append lines_of_handle_line)

lemma splits_of_forced:
  "splits_of (concat (map (\<lambda>l. LineTooLong nm # handle_line cv w l) ls)) = length ls"
  by (induction ls) (auto simp: splits_of_append handle_line_def)

lemma feed_all_forced:
  assumes "k_fds k (fd w) = Some (ino, length (k_data k ino))"
    and "file_offset w \<le> int (length (k_data k ino))"
    and "length (line_buffer_data w) = LINE_BUFFER_SIZE"
    and "line_buffer_pos w < LINE_BUFFER_SIZE - 1"
    and "r = take (line_buffer_pos w) (line_buffer_data w)"
    and "NUL \<notin> set r" and "NL \<notin> set r"
    and "\<forall>c \<in> set cs. NUL \<notin> set c \<and> NL \<notin> set c"
  shows "\<exists>out k' w'. feed_all k w ino cs = Some (out, k', w')
           \<and> splits_of out = length (lines_of out)
           \<and> (\<forall>l \<in> set (lines_of out). length l = LINE_BUFFER_SIZE - 1)
           \<and> concat (lines_of out) @ take (line_buffer_pos w') (line_buffer_data w') = r @ concat cs
           \<and> line_buffer_pos w' < LINE_BUFFER_SIZE - 1
           \<and> length (line_buffer_data w') = LINE_BUFFER_SIZE"
  using assms
proof (induction cs arbitrary: k w r)
  case Nil
  then show ?case by simp
next
  case (Cons c cs)
  note fdo = Cons.prems(1) and off = Cons.prems(2) and len = Cons.prems(3) and pos = Cons.prems(4)
    and r = Cons.prems(5) and nulr = Cons.prems(6) and nlr = Cons.prems(7)
    and nc = Cons.prems(8)
  define ka where "ka = env_append k ino c"
  define old where "old = k_data k ino"
  have fda: "k_fds ka (fd w) = Some (ino, length old)"
    using fdo by (simp add: ka_def env_append_def old_def)
  have dataa: "k_data ka ino = old @ c"
    by (simp add: ka_def env_append_def old_def)
  have pend: "c = drop (length old) (k_data ka ino)"
    by (simp add: dataa)
  have nulc: "NUL \<notin> set c" and nlc: "NL \<notin> set c"
    using nc by simp_all
  from read_loop_forced [OF fda len pos r pend nulr nlr nulc nlc]
  obtain ls d n where
    rl: "read_loop ka w
         = Some (concat (map (\<lambda>l. LineTooLong (name w) # handle_line (k_to_utf8 ka) w l) ls),
                 ka\<lparr>k_fds := (k_fds ka)(fd w \<mapsto> (ino, length old + length c))\<rparr>,
                 w\<lparr>line_buffer_data := d, line_buffer_pos := n\<rparr>)"
    and ld: "length d = LINE_BUFFER_SIZE" and n: "n < LINE_BUFFER_SIZE - 1"
    and all: "\<forall>l \<in> set ls. length l = LINE_BUFFER_SIZE - 1"
    and cat: "concat ls @ take n d = r @ c"
    by blast
  define k1 where "k1 = ka\<lparr>k_fds := (k_fds ka)(fd w \<mapsto> (ino, length old + length c))\<rparr>"
  define w1 where "w1 = w\<lparr>line_buffer_data := d, line_buffer_pos := n,
                          file_offset := int (length old + length c)\<rparr>"
  define out1 where "out1 = concat (map (\<lambda>l. LineTooLong (name w) # handle_line (k_to_utf8 ka) w l) ls)"
  have offa: "file_offset w \<le> int (length (k_data ka ino))"
    using off by (simp add: dataa old_def)
  have "read_watch ka w
        = Some (out1, k1,
                (w\<lparr>line_buffer_data := d, line_buffer_pos := n\<rparr>)
                  \<lparr>file_offset := int (length old + length c)\<rparr>)"
    using fda offa rl [folded k1_def out1_def]
    by (rule read_watch_plain) (simp_all add: k1_def)
  then have rw: "read_watch ka w = Some (out1, k1, w1)"
    by (simp add: w1_def)
  have fd1: "k_fds k1 (fd w1) = Some (ino, length (k_data k1 ino))"
    by (simp add: k1_def w1_def dataa)
  have off1: "file_offset w1 \<le> int (length (k_data k1 ino))"
    by (simp add: k1_def w1_def dataa)
  have len1: "length (line_buffer_data w1) = LINE_BUFFER_SIZE"
    by (simp add: w1_def ld)
  have pos1: "line_buffer_pos w1 < LINE_BUFFER_SIZE - 1"
    using n by (simp add: w1_def)
  have r1: "take n d = take (line_buffer_pos w1) (line_buffer_data w1)"
    by (simp add: w1_def)
  have sub: "set (take n d) \<subseteq> set (r @ c)"
    using cat by (metis Un_upper2 set_append)
  have nult: "NUL \<notin> set (take n d)" and nlt: "NL \<notin> set (take n d)"
    using sub nulr nlr nulc nlc by auto
  have ncs: "\<forall>c \<in> set cs. NUL \<notin> set c \<and> NL \<notin> set c"
    using nc by simp
  from Cons.IH [OF fd1 off1 len1 pos1 r1 nult nlt ncs]
  obtain o2 k2 w2 where
    fa: "feed_all k1 w1 ino cs = Some (o2, k2, w2)"
    and so: "splits_of o2 = length (lines_of o2)"
    and all2: "\<forall>l \<in> set (lines_of o2). length l = LINE_BUFFER_SIZE - 1"
    and cat2: "concat (lines_of o2) @ take (line_buffer_pos w2) (line_buffer_data w2)
               = take n d @ concat cs"
    and ps: "line_buffer_pos w2 < LINE_BUFFER_SIZE - 1"
    and ln: "length (line_buffer_data w2) = LINE_BUFFER_SIZE"
    by blast
  have l1: "lines_of out1 = ls" and s1: "splits_of out1 = length ls"
    by (simp_all add: out1_def lines_of_forced splits_of_forced)
  have "feed_all k w ino (c # cs) = Some (out1 @ o2, k2, w2)"
    by (simp add: ka_def [symmetric] rw fa)
  moreover have "concat (lines_of (out1 @ o2)) @ take (line_buffer_pos w2) (line_buffer_data w2)
                 = r @ concat (c # cs)"
    using cat cat2 by (simp add: lines_of_append l1)
  ultimately show ?case
    using so all all2 ps ln
    by (auto simp: lines_of_append splits_of_append l1 s1)
qed

lemma length_concat_uniform:
  "\<forall>l \<in> set ls. length l = m \<Longrightarrow> length (concat ls) = m * length ls"
  by (induction ls) auto


section \<open>Lemmas on memory safety and totality\<close>

lemma c_string_decompose:
  assumes "i < length buf" and "buf ! i = NUL"
  shows "\<exists>s rest. buf = s @ NUL # rest \<and> NUL \<notin> set s \<and> length s \<le> i"
proof -
  define s where "s = takeWhile (\<lambda>c. c \<noteq> NUL) buf"
  define t where "t = dropWhile (\<lambda>c. c \<noteq> NUL) buf"
  from assms have "NUL \<in> set buf"
    by (metis nth_mem)
  then have tne: "t \<noteq> []"
    by (auto simp: t_def dropWhile_eq_Nil_conv)
  then have "hd t = NUL"
    unfolding t_def using hd_dropWhile [of "\<lambda>c. c \<noteq> NUL" buf] by simp
  with tne have t: "t = NUL # tl t"
    by (cases t) simp_all
  have "buf = s @ t"
    by (simp add: s_def t_def)
  with t have dec: "buf = s @ NUL # tl t"
    by simp
  have ns: "NUL \<notin> set s"
    by (auto simp: s_def dest: set_takeWhileD)
  have "length s \<le> i"
  proof (rule ccontr)
    assume "\<not> length s \<le> i"
    then have l: "i < length s" by simp
    then have "s ! i = buf ! i"
      unfolding s_def by (rule takeWhile_nth)
    with l assms(2) have "NUL \<in> set s"
      by (metis nth_mem)
    with ns show False by simp
  qed
  with dec ns show ?thesis by blast
qed

lemma handle_lines_safe:
  assumes len: "length (line_buffer_data w) = LINE_BUFFER_SIZE"
    and pos: "line_buffer_pos w < LINE_BUFFER_SIZE"
    and nul: "line_buffer_data w ! line_buffer_pos w = NUL"
  shows "\<exists>out d n. handle_lines cv w = Some (out, w\<lparr>line_buffer_data := d, line_buffer_pos := n\<rparr>)
           \<and> length d = LINE_BUFFER_SIZE \<and> n < LINE_BUFFER_SIZE - 1"
proof -
  from pos len have "line_buffer_pos w < length (line_buffer_data w)"
    by simp
  from c_string_decompose [OF this nul] obtain s rest where
    dat: "line_buffer_data w = s @ NUL # rest" and ns: "NUL \<notin> set s"
    and ls: "length s \<le> line_buffer_pos w"
    by blast
  show ?thesis
  proof (cases "NL \<in> set s")
    case True
    from handle_lines_newline [OF len pos dat ns True ls] obtain d where
      hl: "handle_lines cv w
           = Some (concat (map (handle_line cv w) (butlast (split_on NL s))),
                   w\<lparr>line_buffer_data := d,
                     line_buffer_pos := line_buffer_pos w
                                        - (length s - length (last (split_on NL s)))\<rparr>)"
      and ld: "length d = LINE_BUFFER_SIZE"
      by blast
    from last_split_on_shorter [OF True]
    have "0 < length s - length (last (split_on NL s))"
      by simp
    with pos have "line_buffer_pos w - (length s - length (last (split_on NL s)))
                   < LINE_BUFFER_SIZE - 1"
      unfolding LINE_BUFFER_SIZE_def by arith
    with hl ld show ?thesis by blast
  next
    case False
    note hl = handle_lines_no_newline [OF dat ns False]
    show ?thesis
    proof (cases "LINE_BUFFER_SIZE - 1 \<le> line_buffer_pos w")
      case True
      have "w\<lparr>line_buffer_pos := 0\<rparr>
            = w\<lparr>line_buffer_data := line_buffer_data w, line_buffer_pos := 0\<rparr>"
        by simp
      with hl True len show ?thesis
        by (intro exI [of _ "[LineTooLong (name w)] @ handle_line cv w s"]
              exI [of _ "line_buffer_data w"] exI [of _ 0])
           (simp add: LINE_BUFFER_SIZE_def)
    next
      case False
      have "w = w\<lparr>line_buffer_data := line_buffer_data w, line_buffer_pos := line_buffer_pos w\<rparr>"
        by simp
      with hl False len show ?thesis
        by (intro exI [of _ "[]"] exI [of _ "line_buffer_data w"] exI [of _ "line_buffer_pos w"])
           simp
    qed
  qed
qed


lemma do_read_closed:
  "k_fds k (fd w) = None \<Longrightarrow> do_read k w = Some (False, [ReadError (name w)], k, w)"
  by (simp add: do_read_def sys_read_def Let_def)

lemma read_loop_closed:
  "k_fds k (fd w) = None \<Longrightarrow> read_loop k w = Some ([ReadError (name w)], k, w)"
  by (rule read_loop_stop) (rule do_read_closed)

lemma read_loop_total:
  assumes "k_fds k (fd w) = Some (ino, p)" and "buffer_ok w"
  shows "\<exists>out d n. read_loop k w
              = Some (out,
                      k\<lparr>k_fds := (k_fds k)(fd w \<mapsto> (ino, max p (length (k_data k ino))))\<rparr>,
                      w\<lparr>line_buffer_data := d, line_buffer_pos := n\<rparr>)
           \<and> length d = LINE_BUFFER_SIZE \<and> n < LINE_BUFFER_SIZE - 1"
  using assms
proof (induction "length (k_data k ino) - p" arbitrary: k w p rule: less_induct)
  case less
  note fdo = less.prems(1) and ok = less.prems(2)
  from ok have len: "length (line_buffer_data w) = LINE_BUFFER_SIZE"
    and pos: "line_buffer_pos w < LINE_BUFFER_SIZE - 1"
    by (simp_all add: buffer_ok_def)
  show ?case
  proof (cases "drop p (k_data k ino) = []")
    case True
    then have bs: "[] = take (LINE_BUFFER_SIZE - line_buffer_pos w - 1) (drop p (k_data k ino))"
      by simp
    from pos have pos': "line_buffer_pos w < LINE_BUFFER_SIZE" by simp
    from do_read_open [OF fdo pos' len bs refl]
    have "do_read k w = Some (False, [], k\<lparr>k_fds := (k_fds k)(fd w \<mapsto> (ino, p))\<rparr>, w)"
      by simp
    then have "read_loop k w = Some ([], k\<lparr>k_fds := (k_fds k)(fd w \<mapsto> (ino, p))\<rparr>, w)"
      by (rule read_loop_stop)
    moreover from True have "max p (length (k_data k ino)) = p"
      by simp
    moreover have "w\<lparr>line_buffer_data := line_buffer_data w, line_buffer_pos := line_buffer_pos w\<rparr> = w"
      by simp
    ultimately show ?thesis
      using len pos
      by (intro exI [of _ "[]"] exI [of _ "line_buffer_data w"] exI [of _ "line_buffer_pos w"])
         simp
  next
    case False
    define bs where "bs = take (LINE_BUFFER_SIZE - line_buffer_pos w - 1) (drop p (k_data k ino))"
    define k1 where "k1 = k\<lparr>k_fds := (k_fds k)(fd w \<mapsto> (ino, p + length bs))\<rparr>"
    define d1 where "d1 = take (line_buffer_pos w) (line_buffer_data w) @ bs @ NUL
                       # drop (Suc (line_buffer_pos w + length bs)) (line_buffer_data w)"
    define w1 where "w1 = w\<lparr>line_buffer_data := d1,
                            line_buffer_pos := line_buffer_pos w + length bs\<rparr>"
    note rd = do_read_feed [OF fdo len pos bs_def False]
    have dr: "do_read k w = Some (True, [], k1, w1)"
      using rd(1) by (simp add: k1_def w1_def d1_def)
    have bsne: "bs \<noteq> []" by (rule rd(2))
    have pos1: "line_buffer_pos w1 < LINE_BUFFER_SIZE"
      using rd(3) by (simp add: w1_def)
    have len1: "length (line_buffer_data w1) = LINE_BUFFER_SIZE"
      using rd(4) by (simp add: w1_def d1_def)
    have "length (take (line_buffer_pos w) (line_buffer_data w)) = line_buffer_pos w"
      using len pos by simp
    then have "d1 ! (line_buffer_pos w + length bs) = NUL"
      unfolding d1_def by (simp add: nth_append)
    then have nul1: "line_buffer_data w1 ! line_buffer_pos w1 = NUL"
      by (simp add: w1_def)
    from handle_lines_safe [OF len1 pos1 nul1] obtain o2 d2 n2 where
      hl: "handle_lines (k_to_utf8 k1) w1 = Some (o2, w1\<lparr>line_buffer_data := d2, line_buffer_pos := n2\<rparr>)"
      and ld2: "length d2 = LINE_BUFFER_SIZE" and n2: "n2 < LINE_BUFFER_SIZE - 1"
      by blast
    define w2 where "w2 = w1\<lparr>line_buffer_data := d2, line_buffer_pos := n2\<rparr>"
    have ok2: "buffer_ok w2"
      using ld2 n2 by (simp add: buffer_ok_def w2_def)
    have fd2: "k_fds k1 (fd w2) = Some (ino, p + length bs)"
      by (simp add: k1_def w2_def w1_def)
    have lbs: "length bs \<le> length (k_data k ino) - p"
      by (simp add: bs_def)
    have plt: "p < length (k_data k ino)"
      using False by simp
    have dec: "length (k_data k1 ino) - (p + length bs) < length (k_data k ino) - p"
    proof -
      from bsne have "0 < length bs" by simp
      with plt have "length (k_data k ino) - (p + length bs) < length (k_data k ino) - p"
        by arith
      then show ?thesis by (simp add: k1_def)
    qed
    from less.hyps [OF dec fd2 ok2] obtain o3 d n where
      rl: "read_loop k1 w2
           = Some (o3,
                   k1\<lparr>k_fds := (k_fds k1)(fd w2 \<mapsto> (ino, max (p + length bs) (length (k_data k1 ino))))\<rparr>,
                   w2\<lparr>line_buffer_data := d, line_buffer_pos := n\<rparr>)"
      and ld: "length d = LINE_BUFFER_SIZE" and n: "n < LINE_BUFFER_SIZE - 1"
      by blast
    have mx: "max (p + length bs) (length (k_data k1 ino)) = max p (length (k_data k ino))"
      using lbs plt by (simp add: k1_def)
    have kfin: "k1\<lparr>k_fds := (k_fds k1)(fd w2 \<mapsto> (ino, max p (length (k_data k ino))))\<rparr>
                = k\<lparr>k_fds := (k_fds k)(fd w \<mapsto> (ino, max p (length (k_data k ino))))\<rparr>"
      by (simp add: k1_def w2_def w1_def)
    have wfin: "w2\<lparr>line_buffer_data := d, line_buffer_pos := n\<rparr>
                = w\<lparr>line_buffer_data := d, line_buffer_pos := n\<rparr>"
      by (simp add: w2_def w1_def)
    from read_loop_step [OF dr hl [folded w2_def] rl]
    have "read_loop k w
          = Some ([] @ o2 @ o3,
                  k\<lparr>k_fds := (k_fds k)(fd w \<mapsto> (ino, max p (length (k_data k ino))))\<rparr>,
                  w\<lparr>line_buffer_data := d, line_buffer_pos := n\<rparr>)"
      unfolding mx kfin wfin .
    with ld n show ?thesis by blast
  qed
qed


lemma read_watch_total:
  assumes fdo: "k_fds k (fd w) = Some (ino, p)" and ok: "buffer_ok w"
    and p0: "p0 = (if int (length (k_data k ino)) < file_offset w then 0 else p)"
    and q: "q = max p0 (length (k_data k ino))"
  shows "\<exists>out d n.
           read_loop (k\<lparr>k_fds := (k_fds k)(fd w \<mapsto> (ino, p0))\<rparr>) w
             = Some (out, k\<lparr>k_fds := (k_fds k)(fd w \<mapsto> (ino, q))\<rparr>,
                     w\<lparr>line_buffer_data := d, line_buffer_pos := n\<rparr>)
         \<and> read_watch k w
             = Some ((if int (length (k_data k ino)) < file_offset w
                      then [Truncated (name w)] else []) @ out,
                     k\<lparr>k_fds := (k_fds k)(fd w \<mapsto> (ino, q))\<rparr>,
                     w\<lparr>line_buffer_data := d, line_buffer_pos := n, file_offset := int q\<rparr>)
         \<and> length d = LINE_BUFFER_SIZE \<and> n < LINE_BUFFER_SIZE - 1"
proof -
  define k0 where "k0 = k\<lparr>k_fds := (k_fds k)(fd w \<mapsto> (ino, p0))\<rparr>"
  have fd0: "k_fds k0 (fd w) = Some (ino, p0)"
    by (simp add: k0_def)
  from read_loop_total [OF fd0 ok] obtain out d n where
    rl: "read_loop k0 w
         = Some (out, k0\<lparr>k_fds := (k_fds k0)(fd w \<mapsto> (ino, max p0 (length (k_data k0 ino))))\<rparr>,
                 w\<lparr>line_buffer_data := d, line_buffer_pos := n\<rparr>)"
    and ld: "length d = LINE_BUFFER_SIZE" and n: "n < LINE_BUFFER_SIZE - 1"
    by blast
  define k1 where "k1 = k\<lparr>k_fds := (k_fds k)(fd w \<mapsto> (ino, q))\<rparr>"
  have k1: "k0\<lparr>k_fds := (k_fds k0)(fd w \<mapsto> (ino, max p0 (length (k_data k0 ino))))\<rparr> = k1"
    by (simp add: k0_def k1_def q)
  note rl' = rl [unfolded k1]
  have seek0: "(if int (length (k_data k ino)) < file_offset w
                then snd (sys_lseek k (fd w) 0 SEEK_SET) else k) = k0"
  proof (cases "int (length (k_data k ino)) < file_offset w")
    case True
    then show ?thesis
      by (simp add: sys_lseek_def fdo k0_def p0)
  next
    case False
    then have "p0 = p" by (simp add: p0)
    moreover have "(k_fds k)(fd w \<mapsto> (ino, p)) = k_fds k"
      using fdo by (simp add: map_upd_triv)
    ultimately show ?thesis
      using False by (simp add: k0_def)
  qed
  have "(k_fds k1)(fd w \<mapsto> (ino, q)) = k_fds k1"
    by (simp add: k1_def)
  then have cur: "sys_lseek k1 (fd w) 0 SEEK_CUR = (int q, k1)"
    by (simp add: sys_lseek_def k1_def)
  have "read_watch k w
        = Some ((if int (length (k_data k ino)) < file_offset w
                 then [Truncated (name w)] else []) @ out, k1,
                w\<lparr>line_buffer_data := d, line_buffer_pos := n, file_offset := int q\<rparr>)"
  proof (cases "int (length (k_data k ino)) < file_offset w")
    case True
    with seek0 have "snd (sys_lseek k (fd w) 0 SEEK_SET) = k0" by simp
    with True show ?thesis
      by (simp add: read_watch_def sys_fstat_size_def fdo rl' cur)
  next
    case False
    with seek0 have "k0 = k" by simp
    with rl' have "read_loop k w
                   = Some (out, k1, w\<lparr>line_buffer_data := d, line_buffer_pos := n\<rparr>)"
      by simp
    with False show ?thesis
      by (simp add: read_watch_def sys_fstat_size_def fdo cur)
  qed
  with rl' ld n show ?thesis
    unfolding k0_def k1_def by blast
qed

lemma feed_all_safe:
  assumes "k_fds k (fd w) = Some (ino, p)" and "buffer_ok w"
  shows "\<exists>out k' w'. feed_all k w ino cs = Some (out, k', w') \<and> buffer_ok w'"
  using assms
proof (induction cs arbitrary: k w p)
  case Nil
  then show ?case by simp
next
  case (Cons c cs)
  define ka where "ka = env_append k ino c"
  have fda: "k_fds ka (fd w) = Some (ino, p)"
    using Cons.prems(1) by (simp add: ka_def env_append_def)
  from read_watch_total [OF fda Cons.prems(2) refl refl] obtain out q d n where
    rw: "read_watch ka w
         = Some (out, ka\<lparr>k_fds := (k_fds ka)(fd w \<mapsto> (ino, q))\<rparr>,
                 w\<lparr>line_buffer_data := d, line_buffer_pos := n, file_offset := int q\<rparr>)"
    and ld: "length d = LINE_BUFFER_SIZE" and n: "n < LINE_BUFFER_SIZE - 1"
    by blast
  define k1 where "k1 = ka\<lparr>k_fds := (k_fds ka)(fd w \<mapsto> (ino, q))\<rparr>"
  define w1 where "w1 = w\<lparr>line_buffer_data := d, line_buffer_pos := n, file_offset := int q\<rparr>"
  have fd1: "k_fds k1 (fd w1) = Some (ino, q)"
    by (simp add: k1_def w1_def)
  have ok1: "buffer_ok w1"
    using ld n by (simp add: buffer_ok_def w1_def)
  from Cons.IH [OF fd1 ok1] obtain o2 k2 w2 where
    "feed_all k1 w1 ino cs = Some (o2, k2, w2)" and "buffer_ok w2"
    by blast
  with rw show ?case
    by (simp add: ka_def [symmetric] k1_def [symmetric] w1_def [symmetric])
qed

lemma do_read_safe:
  assumes "buffer_ok w"
  shows "\<exists>again out k1 w1. do_read k w = Some (again, out, k1, w1)
           \<and> length (line_buffer_data w1) = LINE_BUFFER_SIZE
           \<and> line_buffer_pos w \<le> line_buffer_pos w1
           \<and> line_buffer_pos w1 - line_buffer_pos w \<le> LINE_BUFFER_SIZE - line_buffer_pos w - 1
           \<and> line_buffer_pos w1 < LINE_BUFFER_SIZE
           \<and> (again \<longrightarrow> line_buffer_data w1 ! line_buffer_pos w1 = NUL
                \<and> (\<exists>out2 w2. handle_lines (k_to_utf8 k1) w1 = Some (out2, w2) \<and> buffer_ok w2))"
proof (cases "k_fds k (fd w)")
  case None
  from assms have "length (line_buffer_data w) = LINE_BUFFER_SIZE"
    and "line_buffer_pos w < LINE_BUFFER_SIZE"
    by (auto simp: buffer_ok_def)
  then show ?thesis
    by (intro exI [of _ False] exI [of _ "[ReadError (name w)]"] exI [of _ k] exI [of _ w])
       (simp add: do_read_closed [OF None])
next
  case (Some a)
  obtain ino p where fdo: "k_fds k (fd w) = Some (ino, p)"
    using Some by (cases a) simp
  from assms have len: "length (line_buffer_data w) = LINE_BUFFER_SIZE"
    and pos: "line_buffer_pos w < LINE_BUFFER_SIZE - 1"
    by (simp_all add: buffer_ok_def)
  show ?thesis
  proof (cases "drop p (k_data k ino) = []")
    case True
    then have bs: "[] = take (LINE_BUFFER_SIZE - line_buffer_pos w - 1) (drop p (k_data k ino))"
      by simp
    from pos have pos': "line_buffer_pos w < LINE_BUFFER_SIZE" by simp
    from do_read_open [OF fdo pos' len bs refl]
    have "do_read k w = Some (False, [], k\<lparr>k_fds := (k_fds k)(fd w \<mapsto> (ino, p))\<rparr>, w)"
      by simp
    with len pos' show ?thesis
      by (intro exI [of _ False] exI [of _ "[]"]
            exI [of _ "k\<lparr>k_fds := (k_fds k)(fd w \<mapsto> (ino, p))\<rparr>"] exI [of _ w])
         simp
  next
    case False
    define bs where "bs = take (LINE_BUFFER_SIZE - line_buffer_pos w - 1) (drop p (k_data k ino))"
    define d1 where "d1 = take (line_buffer_pos w) (line_buffer_data w) @ bs @ NUL
                       # drop (Suc (line_buffer_pos w + length bs)) (line_buffer_data w)"
    define w1 where "w1 = w\<lparr>line_buffer_data := d1,
                            line_buffer_pos := line_buffer_pos w + length bs\<rparr>"
    define k1 where "k1 = k\<lparr>k_fds := (k_fds k)(fd w \<mapsto> (ino, p + length bs))\<rparr>"
    note rd = do_read_feed [OF fdo len pos bs_def False]
    have dr: "do_read k w = Some (True, [], k1, w1)"
      using rd(1) by (simp add: w1_def d1_def k1_def)
    have pos1: "line_buffer_pos w1 < LINE_BUFFER_SIZE"
      using rd(3) by (simp add: w1_def)
    have len1: "length (line_buffer_data w1) = LINE_BUFFER_SIZE"
      using rd(4) by (simp add: w1_def d1_def)
    have "length (take (line_buffer_pos w) (line_buffer_data w)) = line_buffer_pos w"
      using len pos by simp
    then have "d1 ! (line_buffer_pos w + length bs) = NUL"
      unfolding d1_def by (simp add: nth_append)
    then have nul1: "line_buffer_data w1 ! line_buffer_pos w1 = NUL"
      by (simp add: w1_def)
    from handle_lines_safe [OF len1 pos1 nul1] obtain o2 d2 n2 where
      hl: "handle_lines (k_to_utf8 k1) w1 = Some (o2, w1\<lparr>line_buffer_data := d2, line_buffer_pos := n2\<rparr>)"
      and ld2: "length d2 = LINE_BUFFER_SIZE" and n2: "n2 < LINE_BUFFER_SIZE - 1"
      by blast
    have ok2: "buffer_ok (w1\<lparr>line_buffer_data := d2, line_buffer_pos := n2\<rparr>)"
      using ld2 n2 by (simp add: buffer_ok_def)
    have acc: "line_buffer_pos w1 - line_buffer_pos w \<le> LINE_BUFFER_SIZE - line_buffer_pos w - 1"
      by (simp add: w1_def bs_def)
    have mono: "line_buffer_pos w \<le> line_buffer_pos w1"
      by (simp add: w1_def)
    from dr len1 mono acc pos1 nul1 hl ok2 show ?thesis
      by blast
  qed
qed


lemma w_tail_ok: "buffer_ok w_tail"
  by (simp add: buffer_ok_def w_tail_def LINE_BUFFER_SIZE_def)

lemma feed_stale_cursor:
  "\<exists>k'. feed_all k_tail w_tail 3 [''a'' @ [NL] @ ''bcd'']
         = Some (handle_line c_locale_to_utf8 w_tail ''a'', k',
                 w_tail\<lparr>line_buffer_data := ''bcdcd'' @ NUL # replicate 4090 NUL,
                        line_buffer_pos := 3, file_offset := 5\<rparr>)"
proof -
  define ka where "ka = env_append k_tail 3 (''a'' @ [NL] @ ''bcd'')"
  define bs where "bs = take (LINE_BUFFER_SIZE - line_buffer_pos w_tail - 1) (drop 0 (k_data ka 3))"
  define k1 where "k1 = ka\<lparr>k_fds := (k_fds ka)(fd w_tail \<mapsto> (3, 0 + length bs))\<rparr>"
  define w1 where "w1 = w_tail\<lparr>line_buffer_data :=
                           take (line_buffer_pos w_tail) (line_buffer_data w_tail) @ bs @ NUL
                             # drop (Suc (line_buffer_pos w_tail + length bs)) (line_buffer_data w_tail),
                         line_buffer_pos := line_buffer_pos w_tail + length bs\<rparr>"
  define w2 where "w2 = w_tail\<lparr>line_buffer_data := ''bcdcd'' @ NUL # replicate 4090 NUL,
                              line_buffer_pos := 3\<rparr>"
  have bs: "bs = ''a'' @ [NL] @ ''bcd''"
    by (simp add: bs_def ka_def env_append_def k_tail_def w_tail_def LINE_BUFFER_SIZE_def)
  have fda: "k_fds ka (fd w_tail) = Some (3, 0)"
    by (simp add: ka_def env_append_def k_tail_def w_tail_def)
  have pos: "line_buffer_pos w_tail < LINE_BUFFER_SIZE"
    by (simp add: w_tail_def LINE_BUFFER_SIZE_def)
  have len: "length (line_buffer_data w_tail) = LINE_BUFFER_SIZE"
    by (simp add: w_tail_def)
  from do_read_open [OF fda pos len bs_def k1_def]
  have dr: "do_read ka w_tail = Some (True, [], k1, w1)"
    by (simp add: bs w1_def)
  have w1: "w1 = w_tail\<lparr>line_buffer_data := ''a'' @ [NL] @ ''bcd'' @ NUL # replicate 4090 NUL,
                         line_buffer_pos := 5\<rparr>"
    by (simp add: w1_def bs w_tail_def LINE_BUFFER_SIZE_def)
  have kc: "k_to_utf8 k1 = c_locale_to_utf8"
    by (simp add: k1_def ka_def env_append_def k_tail_def)
  have hl: "handle_lines (k_to_utf8 k1) w1 = Some (handle_line c_locale_to_utf8 w_tail ''a'', w2)"
    unfolding w1 w2_def kc
    by (simp add: handle_lines_def scan_lines.simps c_strchr.simps c_str_def c_memmove_def
        store_def size_t_sub_def handle_line_def LINE_BUFFER_SIZE_def split: option.split)
  have fd2: "k_fds k1 (fd w2) = Some (3, 5)"
    by (simp add: k1_def w2_def w_tail_def bs)
  have pos2: "line_buffer_pos w2 < LINE_BUFFER_SIZE"
    by (simp add: w2_def LINE_BUFFER_SIZE_def)
  have len2: "length (line_buffer_data w2) = LINE_BUFFER_SIZE"
    by (simp add: w2_def LINE_BUFFER_SIZE_def)
  have e: "[] = take (LINE_BUFFER_SIZE - line_buffer_pos w2 - 1) (drop 5 (k_data k1 3))"
    by (simp add: k1_def ka_def env_append_def k_tail_def)
  from do_read_open [OF fd2 pos2 len2 e refl]
  have dr2: "do_read k1 w2 = Some (False, [], k1\<lparr>k_fds := (k_fds k1)(fd w2 \<mapsto> (3, 5))\<rparr>, w2)"
    by simp
  from read_loop_step [OF dr hl read_loop_stop [OF dr2]]
  have rl: "read_loop ka w_tail
            = Some (handle_line c_locale_to_utf8 w_tail ''a'', k1\<lparr>k_fds := (k_fds k1)(fd w2 \<mapsto> (3, 5))\<rparr>, w2)"
    by simp
  have off: "file_offset w_tail \<le> int (length (k_data ka 3))"
    by (simp add: w_tail_def)
  have "read_watch ka w_tail
        = Some (handle_line c_locale_to_utf8 w_tail ''a'', k1\<lparr>k_fds := (k_fds k1)(fd w2 \<mapsto> (3, 5))\<rparr>,
                w2\<lparr>file_offset := int 5\<rparr>)"
    using fda off rl
    by (rule read_watch_plain) (simp_all add: w2_def)
  then show ?thesis
    by (simp add: ka_def w2_def)
qed


section \<open>Lemmas on events\<close>

lemma modify_only:
  "IN_MODIFY AND IN_MODIFY \<noteq> 0"
  "IN_MODIFY \<noteq> 0"
  "(IN_MODIFY AND NOT IN_MODIFY) AND IN_CREATE = 0"
  "(IN_MODIFY AND NOT IN_MODIFY) AND IN_MOVED_TO = 0"
  "(IN_MODIFY AND NOT IN_MODIFY) AND IN_DELETE_SELF = 0"
  "(IN_MODIFY AND NOT IN_MODIFY) AND IN_MOVE_SELF = 0"
  "(IN_MODIFY AND NOT IN_MODIFY) AND NOT IN_IGNORED = 0"
  by (simp_all add: IN_MODIFY_def)

lemma handle_event_modify:
  assumes "read_watch (kern st) (file_watches st ! i) = Some (out, k', w')"
  shows "handle_event st i nm IN_MODIFY
         = Some (st\<lparr>kern := k', file_watches := (file_watches st)[i := w'],
                    emitted := emitted st @ out\<rparr>)"
  by (simp add: handle_event_def assms modify_only)


section \<open>Lemmas on start-up\<close>

lemma main_waiting: "main k_start [''/tmp/log.txt''] = EventLoop st_waiting"
  by (simp add: main_def inotify_init_def init_file_def init_watch_def reinit_file_def
      wait_for_parent_def find_watch_by_name_def sys_open_def inotify_add_watch_def
      k_start_def st_waiting_def w_unwatched_def w_dir_def Let_def)


lemma init_files_ok: "fst (init_files st names) = True"
  by (induction names arbitrary: st) (auto simp: init_file_def split: prod.splits)


section \<open>Lemmas on the registry\<close>












lemmas eval_defs = init_file_def init_watch_def
      reinit_file_def wait_for_parent_def find_watch_by_name_def sys_open_def sys_lseek_def
      inotify_add_watch_def Let_def







lemma b1: "init_file \<lparr>kern = k_start, file_watches = [], emitted = []\<rparr> ''/tmp''
   = (True, \<lparr>kern = k_tmp_tailed,
             file_watches = [(fresh_file ''/tmp'')\<lparr>parent := Some 1, fd := 4, watch_desc := 1\<rparr>,
                             dir_entry [] (- 1)],
             emitted = []\<rparr>)"
  by (simp add: eval_defs k_start_def k_tmp_tailed_def fresh_file_def dir_entry_def)

lemma b2: "init_file \<lparr>kern = k_tmp_tailed,
             file_watches = [(fresh_file ''/tmp'')\<lparr>parent := Some 1, fd := 4, watch_desc := 1\<rparr>,
                             dir_entry [] (- 1)],
             emitted = []\<rparr> ''/tmp/a''
   = (True, \<lparr>kern = k_tmp_tailed,
             file_watches = [(fresh_file ''/tmp'')\<lparr>parent := Some 1, fd := 4, watch_desc := 1\<rparr>,
                             dir_entry [] (- 1), (fresh_file ''/tmp/a'')\<lparr>parent := Some 0\<rparr>],
             emitted = [OpenFailed ''/tmp/a'']\<rparr>)"
  by (simp add: eval_defs k_start_def k_tmp_tailed_def fresh_file_def dir_entry_def)





section \<open>Lemmas on appearing files\<close>








section \<open>Lemmas on a file that appears after start-up\<close>

lemma handle_event_create:
  "handle_event st i nm IN_CREATE = Some (file_appeared st i nm)"
  by (simp add: handle_event_def IN_CREATE_def IN_MODIFY_def IN_MOVED_TO_def IN_DELETE_SELF_def
      IN_MOVE_SELF_def IN_IGNORED_def)

lemma appeared_created:
  "file_appeared (st_created c) 1 ''log.txt'' = st_opened c"
  by (simp add: file_appeared_def file_appeared_loop.simps reinit_file_def wait_for_parent_def
      sys_open_def sys_lseek_def inotify_add_watch_def
      st_created_def st_opened_def st_waiting_def k_start_def env_create_def
      w_unwatched_def w_dir_def Let_def)

lemma create_event:
  "read_events (st_created c) [(1, IN_CREATE, ''log.txt'')] = Some (st_opened c)"
proof -
  have "find_watch (file_watches (st_created c)) 1 = Some 1"
    by (simp add: find_watch_def st_created_def st_waiting_def w_unwatched_def w_dir_def)
  with appeared_created [of c] show ?thesis
    by (simp add: handle_event_create)
qed


lemma split_on_terminated: "NL \<notin> set l \<Longrightarrow> split_on NL (l @ [NL]) = [l, []]"
  by (simp add: split_on_first)

lemma modify_event:
  assumes "NUL \<notin> set l" and "NL \<notin> set l" and "length l < LINE_BUFFER_SIZE - 1"
  shows "\<exists>st2. read_events (written (st_opened []) 3 (l @ [NL])) [(2, IN_MODIFY, [])] = Some st2
           \<and> emitted st2 = emitted (st_opened []) @ handle_line (k_to_utf8 k_start) w_unwatched l
           \<and> observe st2 = ([l], 4, 2, int (length l) + 1)"
proof -
  define st where "st = written (st_opened []) 3 (l @ [NL])"
  define w where "w = file_watches st ! 0"
  have w: "w = w_unwatched\<lparr>fd := 4, watch_desc := 2, file_offset := 0\<rparr>"
    by (simp add: w_def st_def written_def st_opened_def)
  have fw: "find_watch (file_watches st) 2 = Some 0"
    by (simp add: find_watch_def st_def written_def st_opened_def)
  have fdo: "k_fds (kern st) (fd w) = Some (3, 0)"
    and data: "k_data (kern st) 3 = l @ [NL]"
    by (simp_all add: w st_def written_def st_opened_def env_append_def env_create_def
        st_waiting_def k_start_def)
  have len: "length (line_buffer_data w) = LINE_BUFFER_SIZE"
    and pos: "line_buffer_pos w < LINE_BUFFER_SIZE - 1"
    and r: "[] = take (line_buffer_pos w) (line_buffer_data w)"
    and off: "file_offset w \<le> int (length (k_data (kern st) 3))"
    by (simp_all add: w w_unwatched_def LINE_BUFFER_SIZE_def)
  have pend: "l @ [NL] = drop 0 (k_data (kern st) 3)"
    by (simp add: data)
  have sp: "split_on NL ([] @ l @ [NL]) = [l, []]"
    using assms(2) by (simp add: split_on_terminated)
  have seg: "\<forall>seg \<in> set (split_on NL ([] @ l @ [NL])). length seg < LINE_BUFFER_SIZE - 1"
    unfolding sp using assms(3) by (simp add: LINE_BUFFER_SIZE_def)
  have nul: "NUL \<notin> set (l @ [NL])"
    using assms(1) by simp
  from read_loop_lines [OF fdo len pos r pend _ _ nul seg] obtain d where
    rl: "read_loop (kern st) w
         = Some (handle_line (k_to_utf8 (kern st)) w l,
                 (kern st)\<lparr>k_fds := (k_fds (kern st))(fd w \<mapsto> (3, Suc (length l)))\<rparr>,
                 w\<lparr>line_buffer_data := d, line_buffer_pos := 0\<rparr>)"
    unfolding sp by auto
  have fd1: "fd (w\<lparr>line_buffer_data := d, line_buffer_pos := 0\<rparr>) = fd w"
    by simp
  have k1: "k_fds ((kern st)\<lparr>k_fds := (k_fds (kern st))(fd w \<mapsto> (3, Suc (length l)))\<rparr>) (fd w)
            = Some (3, Suc (length l))"
    by simp
  note rw = read_watch_plain [OF fdo off rl fd1 k1]
  note he = handle_event_modify [OF rw [unfolded w_def], of "[]"]
  have hl: "handle_line (k_to_utf8 (kern st)) w = handle_line (k_to_utf8 k_start) w_unwatched"
    by (rule handle_line_env)
       (simp_all add: w st_def written_def st_opened_def env_append_def env_create_def
          st_waiting_def)
  show ?thesis
    unfolding st_def [symmetric]
    by (simp add: fw he observe_def w_def [symmetric] hl lines_of_append lines_of_handle_line)
       (simp add: w st_def written_def st_opened_def)
qed


lemma modify_nothing_new:
  "\<exists>st2. read_events (st_opened c) [(2, IN_MODIFY, [])] = Some st2
         \<and> emitted st2 = emitted (st_opened c)
         \<and> observe st2 = ([], 4, 2, int (length c))"
proof -
  define st where "st = st_opened c"
  define w where "w = file_watches st ! 0"
  have w: "w = w_unwatched\<lparr>fd := 4, watch_desc := 2, file_offset := int (length c)\<rparr>"
    by (simp add: w_def st_def st_opened_def)
  have fw: "find_watch (file_watches st) 2 = Some 0"
    by (simp add: find_watch_def st_def st_opened_def)
  have fdo: "k_fds (kern st) (fd w) = Some (3, length c)"
    and data: "k_data (kern st) 3 = c"
    by (simp_all add: w st_def st_opened_def env_create_def st_waiting_def k_start_def)
  have len: "length (line_buffer_data w) = LINE_BUFFER_SIZE"
    and pos: "line_buffer_pos w < LINE_BUFFER_SIZE - 1"
    and r: "[] = take (line_buffer_pos w) (line_buffer_data w)"
    and off: "file_offset w \<le> int (length (k_data (kern st) 3))"
    by (simp_all add: w w_unwatched_def LINE_BUFFER_SIZE_def data)
  have pend: "[] = drop (length c) (k_data (kern st) 3)"
    by (simp add: data)
  have seg: "\<forall>seg \<in> set (split_on NL ([] @ [])). length seg < LINE_BUFFER_SIZE - 1"
    by (simp add: LINE_BUFFER_SIZE_def)
  from read_loop_lines [OF fdo len pos r pend _ _ _ seg] obtain d where
    rl: "read_loop (kern st) w
         = Some ([], (kern st)\<lparr>k_fds := (k_fds (kern st))(fd w \<mapsto> (3, length c))\<rparr>,
                 w\<lparr>line_buffer_data := d, line_buffer_pos := 0\<rparr>)"
    by auto
  have fd1: "fd (w\<lparr>line_buffer_data := d, line_buffer_pos := 0\<rparr>) = fd w"
    by simp
  have k1: "k_fds ((kern st)\<lparr>k_fds := (k_fds (kern st))(fd w \<mapsto> (3, length c))\<rparr>) (fd w)
            = Some (3, length c)"
    by simp
  note rw = read_watch_plain [OF fdo off rl fd1 k1]
  note he = handle_event_modify [OF rw [unfolded w_def], of "[]"]
  show ?thesis
    unfolding st_def [symmetric]
    by (simp add: fw he observe_def w_def [symmetric])
       (simp add: w st_def st_opened_def)
qed

section \<open>The claims\<close>

text \<open>
  Claim C1, as the specification states it: for every byte sequence fed in arbitrary
  chunks without reaching the overflow threshold, the lines handed to \<^verbatim>\<open>handle_line\<close> are
  the split of the concatenation on the newline, without the trailing empty segment.
  This fails in two ways. Bytes after the last newline are not a line yet: they stay in
  the buffer (feeding \<open>a\<close>, a newline and \<open>b\<close> emits only \<open>a\<close>). And the buffer is scanned
  as a C string, so a NUL byte in the input hides what follows it (feeding a NUL and a
  newline emits nothing).
\<close>

theorem C1_counterexample:
  "fed_lines k_tail w_tail 3 [''a'' @ [NL] @ ''b''] = Some [''a'']
   \<and> drop_trailing_empty (split_on NL (''a'' @ [NL] @ ''b'')) = [''a'', ''b'']
   \<and> fed_lines k_tail w_tail 3 [[NUL, NL]] = Some []
   \<and> drop_trailing_empty (split_on NL [NUL, NL]) = [[NUL]]"
proof -
  have pos: "line_buffer_pos w_tail < LINE_BUFFER_SIZE - 1"
    by (simp add: w_tail_def LINE_BUFFER_SIZE_def)
  have r: "[] = take (line_buffer_pos w_tail) (line_buffer_data w_tail)"
    by (simp add: w_tail_def)
  have nul: "\<forall>c \<in> set [''a'' @ [NL] @ ''b'']. NUL \<notin> set c"
    by simp
  have seg: "\<forall>seg \<in> set (split_on NL ([] @ concat [''a'' @ [NL] @ ''b''])).
               length seg < LINE_BUFFER_SIZE - 1"
    by (simp add: LINE_BUFFER_SIZE_def)
  from feed_all_lines [OF k_tail_fd w_tail_facts(1,2) pos r _ _ nul seg]
  have "fed_lines k_tail w_tail 3 [''a'' @ [NL] @ ''b''] = Some [''a'']"
    by (auto simp: fed_lines_def)
  moreover have "fed_lines k_tail w_tail 3 [[NUL, NL]] = Some []"
    using feed_nul_first by (auto simp: fed_lines_def)
  ultimately show ?thesis
    by (simp add: drop_trailing_empty_def)
qed

text \<open>
  Claim C1, amended: for every NUL-free byte sequence fed in arbitrary chunks, all of whose
  newline-separated segments are shorter than \<open>LINE_BUFFER_SIZE - 1\<close>, the lines handed to
  \<^verbatim>\<open>handle_line\<close> are the segments of the split on the newline except the last one, no split
  is forced, and the last segment is the residual left in the buffer. When the sequence
  is empty or ends in a newline, that is the split without its trailing empty segment.
\<close>

theorem C1_lines_of_chunks:
  assumes "k_fds k (fd w) = Some (ino, length (k_data k ino))"
    and "file_offset w \<le> int (length (k_data k ino))"
    and "length (line_buffer_data w) = LINE_BUFFER_SIZE"
    and "line_buffer_pos w = 0"
    and "\<forall>c \<in> set cs. NUL \<notin> set c"
    and "\<forall>seg \<in> set (split_on NL (concat cs)). length seg < LINE_BUFFER_SIZE - 1"
  shows "\<exists>out k' w'. feed_all k w ino cs = Some (out, k', w')
           \<and> lines_of out = butlast (split_on NL (concat cs))
           \<and> splits_of out = 0
           \<and> take (line_buffer_pos w') (line_buffer_data w') = last (split_on NL (concat cs))
           \<and> (concat cs = [] \<or> last (concat cs) = NL
                \<longrightarrow> lines_of out = drop_trailing_empty (split_on NL (concat cs)))"
proof -
  have pos: "line_buffer_pos w < LINE_BUFFER_SIZE - 1"
    using assms(4) by (simp add: LINE_BUFFER_SIZE_def)
  have r: "[] = take (line_buffer_pos w) (line_buffer_data w)"
    using assms(4) by simp
  have seg: "\<forall>seg \<in> set (split_on NL ([] @ concat cs)). length seg < LINE_BUFFER_SIZE - 1"
    using assms(6) by simp
  from feed_all_lines [OF assms(1) assms(2) assms(3) pos r _ _ assms(5) seg]
  obtain out k' w' where
    fa: "feed_all k w ino cs = Some (out, k', w')"
    and lo: "lines_of out = butlast (split_on NL (concat cs))"
    and so: "splits_of out = 0"
    and tk: "take (line_buffer_pos w') (line_buffer_data w') = last (split_on NL (concat cs))"
    by auto
  have "lines_of out = drop_trailing_empty (split_on NL (concat cs))"
    if "concat cs = [] \<or> last (concat cs) = NL"
    using last_split_on_terminated [OF that] lo by (simp add: drop_trailing_empty_def)
  with fa lo so tk show ?thesis by blast
qed

theorem C1_lines_of_chunks_witness:
  "\<exists>out k' w'. feed_all k_tail w_tail 3 [''he'', ''llo'' @ [NL] @ ''wor'', ''ld'' @ [NL] @ ''x'']
                 = Some (out, k', w')
     \<and> lines_of out = [''hello'', ''world'']
     \<and> splits_of out = 0
     \<and> take (line_buffer_pos w') (line_buffer_data w') = ''x''"
proof -
  have nul: "\<forall>c \<in> set [''he'', ''llo'' @ [NL] @ ''wor'', ''ld'' @ [NL] @ ''x'']. NUL \<notin> set c"
    by simp
  have seg: "\<forall>seg \<in> set (split_on NL (concat [''he'', ''llo'' @ [NL] @ ''wor'', ''ld'' @ [NL] @ ''x''])).
               length seg < LINE_BUFFER_SIZE - 1"
    by (simp add: LINE_BUFFER_SIZE_def)
  from C1_lines_of_chunks [OF k_tail_fd w_tail_facts nul seg]
  show ?thesis by simp
qed



text \<open>
  Claim C2, as the specification states it: a single delimiter-free line of length at
  least \<open>LINE_BUFFER_SIZE\<close> yields exactly one forced split. A run of 8190 bytes yields
  two: the buffer fills again after the first split.
\<close>

theorem C2_counterexample:
  "map_option (map length) (fed_lines k_tail w_tail 3 [replicate 8190 (CHR ''a'')])
   = Some [4095, 4095]"
proof -
  have pos: "line_buffer_pos w_tail < LINE_BUFFER_SIZE - 1"
    by (simp add: w_tail_def LINE_BUFFER_SIZE_def)
  have r: "[] = take (line_buffer_pos w_tail) (line_buffer_data w_tail)"
    by (simp add: w_tail_def)
  have nn: "\<forall>c \<in> set [replicate 8190 (CHR ''a'')]. NUL \<notin> set c \<and> NL \<notin> set c"
    by simp
  from feed_all_forced [OF k_tail_fd w_tail_facts(1,2) pos r _ _ nn]
  obtain out k' w' where
    fa: "feed_all k_tail w_tail 3 [replicate 8190 (CHR ''a'')] = Some (out, k', w')"
    and all: "\<forall>l \<in> set (lines_of out). length l = LINE_BUFFER_SIZE - 1"
    and cat: "concat (lines_of out) @ take (line_buffer_pos w') (line_buffer_data w')
              = replicate 8190 (CHR ''a'')"
    and ps: "line_buffer_pos w' < LINE_BUFFER_SIZE - 1"
    and ln: "length (line_buffer_data w') = LINE_BUFFER_SIZE"
    by auto
  define q where "q = length (lines_of out)"
  define n where "n = line_buffer_pos w'"
  have "length (take n (line_buffer_data w')) = n"
    using ps ln by (simp add: n_def)
  with cat have "8190 = length (concat (lines_of out)) + n"
    by (metis length_append length_replicate n_def)
  with length_concat_uniform [OF all] have tot: "8190 = 4095 * q + n"
    by (simp add: q_def LINE_BUFFER_SIZE_def)
  have nm: "n < 4095"
    using ps by (simp add: n_def LINE_BUFFER_SIZE_def)
  from tot nm have "q = 2"
    by arith
  then have "map length (lines_of out) = [4095, 4095]"
    using all by (auto simp: q_def LINE_BUFFER_SIZE_def length_Suc_conv numeral_2_eq_2)
  with fa show ?thesis
    by (simp add: fed_lines_def)
qed

text \<open>
  Claim C2, amended: feeding a delimiter-free, NUL-free run of \<open>n\<close> bytes into an empty
  assembler, in arbitrary chunks, forces \<open>n div (LINE_BUFFER_SIZE - 1)\<close> splits, so
  exactly one when \<open>LINE_BUFFER_SIZE - 1 \<le> n < 2 * (LINE_BUFFER_SIZE - 1)\<close>; every
  emission has length \<open>LINE_BUFFER_SIZE - 1\<close> and is announced as a forced split, and the
  buffer restarts empty after it; the remaining \<open>n mod (LINE_BUFFER_SIZE - 1)\<close> bytes are
  the residual of a fresh line. No byte is lost: the emissions followed by the residual
  are the input.
\<close>

theorem C2_forced_splits:
  assumes "k_fds k (fd w) = Some (ino, length (k_data k ino))"
    and "file_offset w \<le> int (length (k_data k ino))"
    and "length (line_buffer_data w) = LINE_BUFFER_SIZE"
    and "line_buffer_pos w = 0"
    and "\<forall>c \<in> set cs. NUL \<notin> set c \<and> NL \<notin> set c"
  shows "\<exists>out k' w'. feed_all k w ino cs = Some (out, k', w')
           \<and> length (lines_of out) = length (concat cs) div (LINE_BUFFER_SIZE - 1)
           \<and> splits_of out = length (lines_of out)
           \<and> (\<forall>l \<in> set (lines_of out). length l = LINE_BUFFER_SIZE - 1)
           \<and> line_buffer_pos w' = length (concat cs) mod (LINE_BUFFER_SIZE - 1)
           \<and> concat (lines_of out) @ take (line_buffer_pos w') (line_buffer_data w') = concat cs"
proof -
  have pos: "line_buffer_pos w < LINE_BUFFER_SIZE - 1"
    using assms(4) by (simp add: LINE_BUFFER_SIZE_def)
  have r: "[] = take (line_buffer_pos w) (line_buffer_data w)"
    using assms(4) by simp
  from feed_all_forced [OF assms(1) assms(2) assms(3) pos r _ _ assms(5)]
  obtain out k' w' where
    fa: "feed_all k w ino cs = Some (out, k', w')"
    and so: "splits_of out = length (lines_of out)"
    and all: "\<forall>l \<in> set (lines_of out). length l = LINE_BUFFER_SIZE - 1"
    and cat: "concat (lines_of out) @ take (line_buffer_pos w') (line_buffer_data w') = concat cs"
    and ps: "line_buffer_pos w' < LINE_BUFFER_SIZE - 1"
    and ln: "length (line_buffer_data w') = LINE_BUFFER_SIZE"
    by auto
  define m where "m = LINE_BUFFER_SIZE - 1"
  define q where "q = length (lines_of out)"
  define n where "n = line_buffer_pos w'"
  have "length (take n (line_buffer_data w')) = n"
    using ps ln by (simp add: n_def)
  with cat have "length (concat cs) = length (concat (lines_of out)) + n"
    by (metis length_append n_def)
  with length_concat_uniform [OF all] have tot: "length (concat cs) = m * q + n"
    by (simp add: m_def q_def)
  have nm: "n < m"
    using ps by (simp add: n_def m_def)
  from tot nm have "length (concat cs) div m = q" and "length (concat cs) mod m = n"
    by simp_all
  with fa so all cat show ?thesis
    unfolding m_def q_def n_def
    by (intro exI [of _ out] exI [of _ k'] exI [of _ w']) simp
qed

theorem C2_forced_splits_witness:
  "\<exists>out k' w'. feed_all k_tail w_tail 3 [replicate 4000 (CHR ''a''), replicate 100 (CHR ''b'')]
                 = Some (out, k', w')
     \<and> length (lines_of out) = 1
     \<and> splits_of out = length (lines_of out)
     \<and> (\<forall>l \<in> set (lines_of out). length l = 4095)
     \<and> line_buffer_pos w' = 5
     \<and> concat (lines_of out) @ take (line_buffer_pos w') (line_buffer_data w')
         = replicate 4000 (CHR ''a'') @ replicate 100 (CHR ''b'')"
proof -
  have nn: "\<forall>c \<in> set [replicate 4000 (CHR ''a''), replicate 100 (CHR ''b'')].
              NUL \<notin> set c \<and> NL \<notin> set c"
    by simp
  from C2_forced_splits [OF k_tail_fd w_tail_facts nn]
  show ?thesis by (simp add: LINE_BUFFER_SIZE_def)
qed


text \<open>
  Claim C3: for a Watching entry (its descriptor is open) with read offset \<open>O\<close>, a modify
  event that arrives while the file is shorter than \<open>O\<close> makes the read loop start at
  offset 0, on the entry as it is: the same descriptor, the same watch descriptor, the
  same buffer and cursor (an empty file leaves them as they were). Nothing is reopened
  and the kernel's watch table is unchanged; the file is read to its end and the offset
  becomes its size.
\<close>

theorem C3_truncation_rereads_from_start:
  assumes "i < length (file_watches st)" and "w = file_watches st ! i"
    and "k_fds (kern st) (fd w) = Some (ino, p)"
    and "buffer_ok w"
    and "int (length (k_data (kern st) ino)) < file_offset w"
    and "kfinal = (kern st)\<lparr>k_fds := (k_fds (kern st))(fd w \<mapsto> (ino, length (k_data (kern st) ino)))\<rparr>"
  shows "\<exists>out d n.
           read_loop ((kern st)\<lparr>k_fds := (k_fds (kern st))(fd w \<mapsto> (ino, 0))\<rparr>) w
             = Some (out, kfinal, w\<lparr>line_buffer_data := d, line_buffer_pos := n\<rparr>)
         \<and> handle_event st i nm IN_MODIFY
             = Some (st\<lparr>kern := kfinal,
                        file_watches := (file_watches st)
                          [i := w\<lparr>line_buffer_data := d, line_buffer_pos := n,
                                 file_offset := int (length (k_data (kern st) ino))\<rparr>],
                        emitted := emitted st @ Truncated (name w) # out\<rparr>)
         \<and> k_watches kfinal = k_watches (kern st)
         \<and> k_fds kfinal (fd w) = Some (ino, length (k_data (kern st) ino))
         \<and> (k_data (kern st) ino = []
              \<longrightarrow> out = [] \<and> d = line_buffer_data w \<and> n = line_buffer_pos w)"
proof -
  define size where "size = length (k_data (kern st) ino)"
  have p0: "0 = (if int (length (k_data (kern st) ino)) < file_offset w then 0 else p)"
    using assms(5) by simp
  have q: "size = max 0 (length (k_data (kern st) ino))"
    by (simp add: size_def)
  from read_watch_total [OF assms(3) assms(4) p0 q] assms(5) obtain out d n where
    rl: "read_loop ((kern st)\<lparr>k_fds := (k_fds (kern st))(fd w \<mapsto> (ino, 0))\<rparr>) w
           = Some (out, kfinal, w\<lparr>line_buffer_data := d, line_buffer_pos := n\<rparr>)"
    and rw: "read_watch (kern st) w
           = Some ([Truncated (name w)] @ out, kfinal,
                   w\<lparr>line_buffer_data := d, line_buffer_pos := n, file_offset := int size\<rparr>)"
    unfolding assms(6) size_def by auto
  from handle_event_modify [OF rw [unfolded assms(2)], of nm]
  have he: "handle_event st i nm IN_MODIFY
             = Some (st\<lparr>kern := kfinal,
                        file_watches := (file_watches st)
                          [i := w\<lparr>line_buffer_data := d, line_buffer_pos := n,
                                 file_offset := int (length (k_data (kern st) ino))\<rparr>],
                        emitted := emitted st @ Truncated (name w) # out\<rparr>)"
    by (simp add: assms(2) size_def)
  have empty: "out = [] \<and> d = line_buffer_data w \<and> n = line_buffer_pos w"
    if e: "k_data (kern st) ino = []"
  proof -
    define k0 where "k0 = (kern st)\<lparr>k_fds := (k_fds (kern st))(fd w \<mapsto> (ino, 0))\<rparr>"
    have fd0: "k_fds k0 (fd w) = Some (ino, 0)"
      by (simp add: k0_def)
    from assms(4) have pos: "line_buffer_pos w < LINE_BUFFER_SIZE"
      and len: "length (line_buffer_data w) = LINE_BUFFER_SIZE"
      by (auto simp: buffer_ok_def)
    have bs: "[] = take (LINE_BUFFER_SIZE - line_buffer_pos w - 1) (drop 0 (k_data k0 ino))"
      using e by (simp add: k0_def)
    from do_read_open [OF fd0 pos len bs refl]
    have "do_read k0 w = Some (False, [], k0\<lparr>k_fds := (k_fds k0)(fd w \<mapsto> (ino, 0))\<rparr>, w)"
      by simp
    then have "read_loop k0 w = Some ([], k0\<lparr>k_fds := (k_fds k0)(fd w \<mapsto> (ino, 0))\<rparr>, w)"
      by (rule read_loop_stop)
    with rl [folded k0_def] have "w\<lparr>line_buffer_data := d, line_buffer_pos := n\<rparr> = w" and "out = []"
      by simp_all
    then have "line_buffer_data (w\<lparr>line_buffer_data := d, line_buffer_pos := n\<rparr>) = line_buffer_data w"
      and "line_buffer_pos (w\<lparr>line_buffer_data := d, line_buffer_pos := n\<rparr>) = line_buffer_pos w"
      and "out = []"
      by simp_all
    then show ?thesis by simp
  qed
  from rl he empty show ?thesis
    by (intro exI [of _ out] exI [of _ d] exI [of _ n]) (simp add: assms(6))
qed


theorem C3_truncation_rereads_from_start_witness:
  "\<exists>st'. handle_event st_truncated 0 [] IN_MODIFY = Some st'
     \<and> file_offset (file_watches st' ! 0) = 3
     \<and> fd (file_watches st' ! 0) = 4
     \<and> watch_desc (file_watches st' ! 0) = 2
     \<and> hd (emitted st') = Truncated ''/tmp/log.txt''
     \<and> k_watches (kern st') = k_watches k_tail
     \<and> k_fds (kern st') 4 = Some (3, 3)"
proof -
  have i: "0 < length (file_watches st_truncated)"
    and w: "w_tail\<lparr>file_offset := 20\<rparr> = file_watches st_truncated ! 0"
    and fdo: "k_fds (kern st_truncated) (fd (w_tail\<lparr>file_offset := 20\<rparr>)) = Some (3, 0)"
    and ok: "buffer_ok (w_tail\<lparr>file_offset := 20\<rparr>)"
    and tr: "int (length (k_data (kern st_truncated) 3)) < file_offset (w_tail\<lparr>file_offset := 20\<rparr>)"
    by (simp_all add: st_truncated_def env_append_def k_tail_def w_tail_def buffer_ok_def
        LINE_BUFFER_SIZE_def)
  from C3_truncation_rereads_from_start [OF i w fdo ok tr refl, of "[]"]
  obtain out d n where
    "handle_event st_truncated 0 [] IN_MODIFY
     = Some (st_truncated\<lparr>kern := (kern st_truncated)
               \<lparr>k_fds := (k_fds (kern st_truncated))
                  (fd (w_tail\<lparr>file_offset := 20\<rparr>)
                     \<mapsto> (3, length (k_data (kern st_truncated) 3)))\<rparr>,
             file_watches := (file_watches st_truncated)
               [0 := w_tail\<lparr>file_offset := 20, line_buffer_data := d, line_buffer_pos := n,
                             file_offset := int (length (k_data (kern st_truncated) 3))\<rparr>],
             emitted := emitted st_truncated
                        @ Truncated (name (w_tail\<lparr>file_offset := 20\<rparr>)) # out\<rparr>)"
    by auto
  then show ?thesis
    by (simp add: st_truncated_def env_append_def k_tail_def w_tail_def)
qed




text \<open>
  Claim C5: after every operation a FileWatch entry has an open descriptor exactly when it
  has a live watch descriptor. \<^verbatim>\<open>reinit_file\<close> breaks this when \<^verbatim>\<open>open\<close> succeeds and
  \<^verbatim>\<open>inotify_add_watch\<close> then fails (here: no watch left to grant): it prints the error and
  returns with the descriptor open and \<^verbatim>\<open>watch_desc\<close> -1. The failure path of \<^verbatim>\<open>open\<close>
  leaves both at -1.
\<close>

theorem C5_descriptor_without_watch:
  "fd (file_watches st_nospace ! 0) = - 1
   \<and> watch_desc (file_watches st_nospace ! 0) = - 1
   \<and> fd (file_watches (reinit_file st_nospace 0) ! 0) = 4
   \<and> watch_desc (file_watches (reinit_file st_nospace 0) ! 0) = - 1
   \<and> k_fds (kern (reinit_file st_nospace 0)) 4 = Some (3, 0)
   \<and> k_watches (kern (reinit_file st_nospace 0)) = k_watches (kern st_waiting)
   \<and> emitted (reinit_file st_nospace 0) = [AddWatchFailed ''/tmp/log.txt'']"
  by (simp add: reinit_file_def wait_for_parent_def sys_open_def inotify_add_watch_def
      st_nospace_def st_waiting_def k_start_def env_create_def w_unwatched_def w_dir_def Let_def)


text \<open>
  Claim C6, as the specification states it: after start-up on the missing
  \<^verbatim>\<open>/tmp/log.txt\<close> and the creation of the file with content \<open>hello\<close> and a newline, exactly
  one line \<open>hello\<close> is emitted and the entry is Watching with offset 6. Start-up does
  create the directory watch. When the file already holds the six bytes at the time the
  create event is handled, \<^verbatim>\<open>reinit_file\<close> seeks to the end: the entry is Watching with
  offset 6 and no line has been emitted, nor does a later modify event emit one.
\<close>

theorem C6_counterexample:
  "main k_start [''/tmp/log.txt''] = EventLoop st_waiting
   \<and> read_events (st_created (''hello'' @ [NL])) [(1, IN_CREATE, ''log.txt'')]
       = Some (st_opened (''hello'' @ [NL]))
   \<and> observe (st_opened (''hello'' @ [NL])) = ([], 4, 2, 6)
   \<and> (\<exists>st2. read_events (st_opened (''hello'' @ [NL])) [(2, IN_MODIFY, [])] = Some st2
          \<and> observe st2 = ([], 4, 2, 6))"
proof -
  have o: "observe (st_opened (''hello'' @ [NL])) = ([], 4, 2, 6)"
    by (simp add: observe_def st_opened_def)
  from modify_nothing_new [of "''hello'' @ [NL]"] obtain st2 where
    m: "read_events (st_opened (''hello'' @ [NL])) [(2, IN_MODIFY, [])] = Some st2"
    and "observe st2 = ([], 4, 2, int (length (''hello'' @ [NL])))"
    by blast
  then have "observe st2 = ([], 4, 2, 6)"
    by simp
  with main_waiting create_event [of "''hello'' @ [NL]"] o m show ?thesis
    by blast
qed

text \<open>
  Claim C6, amended: start-up on the missing \<^verbatim>\<open>/tmp/log.txt\<close> registers the FileWatch entry,
  Unwatched, and a DirectoryWatch entry for \<^verbatim>\<open>/tmp\<close> as its parent. When the file is created
  empty and the create event is handled, the entry is Watching with offset 0. When a
  line \<open>l\<close> (shorter than the buffer, without NUL) and its newline are written after that
  and the modify event is handled, exactly the line \<open>l\<close> is handed to \<^verbatim>\<open>handle_line\<close>, once,
  and the entry is Watching with the offset at the end of the file; for \<open>hello\<close> the
  notification shows \<open>hello\<close> and the offset is 6.
\<close>

theorem C6_create_then_append:
  assumes "NUL \<notin> set l" and "NL \<notin> set l" and "length l < LINE_BUFFER_SIZE - 1"
  shows "main k_start [''/tmp/log.txt''] = EventLoop st_waiting
         \<and> map (\<lambda>w. (name w, is_file w, watch_desc w, parent w)) (file_watches st_waiting)
             = [(''/tmp/log.txt'', True, - 1, Some 1), (''/tmp'', False, 1, None)]
         \<and> (\<exists>st1 st2.
               read_events (st_created []) [(1, IN_CREATE, ''log.txt'')] = Some st1
             \<and> observe st1 = ([], 4, 2, 0)
             \<and> read_events (written st1 3 (l @ [NL])) [(2, IN_MODIFY, [])] = Some st2
             \<and> emitted st2 = emitted st1 @ handle_line (k_to_utf8 k_start) w_unwatched l
             \<and> observe st2 = ([l], 4, 2, int (length l) + 1))"
proof -
  have a: "map (\<lambda>w. (name w, is_file w, watch_desc w, parent w)) (file_watches st_waiting)
             = [(''/tmp/log.txt'', True, - 1, Some 1), (''/tmp'', False, 1, None)]"
    by (simp add: st_waiting_def w_unwatched_def w_dir_def)
  have b: "observe (st_opened []) = ([], 4, 2, 0)"
    by (simp add: observe_def st_opened_def)
  from modify_event [OF assms] obtain st2 where
    "read_events (written (st_opened []) 3 (l @ [NL])) [(2, IN_MODIFY, [])] = Some st2"
    "emitted st2 = emitted (st_opened []) @ handle_line (k_to_utf8 k_start) w_unwatched l"
    "observe st2 = ([l], 4, 2, int (length l) + 1)"
    by blast
  with main_waiting a b create_event [of "[]"] show ?thesis
    by blast
qed

theorem C6_create_then_append_witness:
  "NUL \<notin> set ''hello'' \<and> NL \<notin> set ''hello''
   \<and> length ''hello'' < LINE_BUFFER_SIZE - 1
   \<and> (\<exists>st1 st2.
         read_events (st_created []) [(1, IN_CREATE, ''log.txt'')] = Some st1
       \<and> observe st1 = ([], 4, 2, 0)
       \<and> read_events (written st1 3 (''hello'' @ [NL])) [(2, IN_MODIFY, [])] = Some st2
       \<and> emitted st2 = emitted st1 @ [Line ''hello'', Notify ''hello'']
       \<and> observe st2 = ([''hello''], 4, 2, 6))"
proof -
  have h: "NUL \<notin> set ''hello''" "NL \<notin> set ''hello''"
    "length ''hello'' < LINE_BUFFER_SIZE - 1"
    by (simp_all add: LINE_BUFFER_SIZE_def)
  have e: "handle_line (k_to_utf8 k_start) w_unwatched ''hello''
           = [Line ''hello'', Notify ''hello'']"
    by (simp add: handle_line_def k_start_def c_locale_to_utf8_def)
  from C6_create_then_append [OF h] h show ?thesis
    unfolding e by simp
qed





text \<open>
  Claim C8: a successful \<^verbatim>\<open>reinit_file\<close> sets the offset to the end of the file and leaves
  a fresh, empty line assembler. The offset is set; the assembler is not touched. Here
  the entry holds the residual \<open>abc\<close> of the old file when a new file is renamed over
  its path: after the successful reinit (new descriptor 5, new watch 3, offset 4 = the
  end of the new file) the cursor is still 3 and the buffer still starts with \<open>abc\<close>.
  \<^verbatim>\<open>file_deleted\<close> does reset the cursor.
\<close>

theorem C8_reinit_keeps_residual:
  "fd (file_watches (reinit_file st_rotated 0) ! 0) = 5
   \<and> watch_desc (file_watches (reinit_file st_rotated 0) ! 0) = 3
   \<and> file_offset (file_watches (reinit_file st_rotated 0) ! 0) = 4
   \<and> line_buffer_pos (file_watches (reinit_file st_rotated 0) ! 0) = 3
   \<and> take 3 (line_buffer_data (file_watches (reinit_file st_rotated 0) ! 0)) = ''abc''
   \<and> line_buffer_pos (file_watches (file_deleted st_rotated 0) ! 0) = 0"
  by (simp add: reinit_file_def file_deleted_def wait_for_parent_def sys_open_def sys_close_def
      inotify_add_watch_def inotify_rm_watch_def sys_lseek_def
      st_rotated_def k_tail_def env_create_def env_append_def w_tail_def w_dir_def Let_def)

text \<open>
  Claim C9, as the specification states it: with an empty argument list the process exits
  with a non-zero status before the event loop. \<^verbatim>\<open>main\<close> never looks at the number of
  arguments: with none, \<^verbatim>\<open>init_files\<close> has nothing to do, returns true, and the process
  enters the loop with an empty registry.
\<close>

theorem C9_counterexample:
  "main k_start [] = EventLoop \<lparr>kern = k_start, file_watches = [], emitted = []\<rparr>"
  by (simp add: main_def inotify_init_def k_start_def)

text \<open>
  Claim C9, amended: the process exits before the event loop, with status -1, exactly when
  \<^verbatim>\<open>inotify_init\<close> fails; otherwise it enters the loop whatever the argument list is, the
  empty one included (\<^verbatim>\<open>init_files\<close> cannot fail).
\<close>

theorem C9_exit_only_without_inotify:
  "main k args
   = (if inotify_init k < 0 then Exit (- 1) [InotifyUnavailable]
      else EventLoop (snd (init_files \<lparr>kern = k, file_watches = [], emitted = []\<rparr> args)))"
proof -
  obtain ok st where r: "init_files \<lparr>kern = k, file_watches = [], emitted = []\<rparr> args = (ok, st)"
    by (cases "init_files \<lparr>kern = k, file_watches = [], emitted = []\<rparr> args")
  with init_files_ok [of "\<lparr>kern = k, file_watches = [], emitted = []\<rparr>" args] have "ok"
    by simp
  with r show ?thesis
    by (simp add: main_def)
qed



text \<open>
  Claim C10, as stated, ends with: the buffer is NUL-terminated at the cursor after every
  feed. After a feed that leaves a residual behind complete lines this fails: \<^verbatim>\<open>memmove\<close>
  copies the residual to the front without its terminator. Feeding \<open>a\<close>, a newline and
  \<open>bcd\<close> leaves the cursor at 3 on the stale byte \<open>c\<close>.
\<close>

theorem C10_counterexample:
  "cursor_byte (feed_all k_tail w_tail 3 [''a'' @ [NL] @ ''bcd'']) = Some (CHR ''c'')"
  using feed_stale_cursor by (auto simp: cursor_byte_def)

text \<open>
  Claim C10, amended: from a buffer of \<open>LINE_BUFFER_SIZE\<close> bytes whose cursor is below
  \<open>LINE_BUFFER_SIZE - 1\<close> (as \<^verbatim>\<open>init_watch\<close> makes it), no access leaves the buffer, whatever
  bytes the file holds. Every \<^verbatim>\<open>do_read\<close> accepts at most \<open>LINE_BUFFER_SIZE - cursor - 1\<close>
  bytes and leaves the cursor below \<open>LINE_BUFFER_SIZE\<close>; after a successful read the buffer
  is NUL-terminated at the cursor, and \<^verbatim>\<open>handle_lines\<close> brings the cursor back below
  \<open>LINE_BUFFER_SIZE - 1\<close>. So the read loop, and every sequence of feeds, returns with
  the cursor below \<open>LINE_BUFFER_SIZE - 1\<close>. The byte at the cursor is NUL after each
  successful read, not after the line extraction of a feed.
\<close>

theorem C10_cursor_in_bounds:
  assumes "buffer_ok w"
  shows "(\<exists>again out k1 w1. do_read k w = Some (again, out, k1, w1)
            \<and> length (line_buffer_data w1) = LINE_BUFFER_SIZE
            \<and> line_buffer_pos w \<le> line_buffer_pos w1
            \<and> line_buffer_pos w1 - line_buffer_pos w \<le> LINE_BUFFER_SIZE - line_buffer_pos w - 1
            \<and> line_buffer_pos w1 < LINE_BUFFER_SIZE
            \<and> (again \<longrightarrow> line_buffer_data w1 ! line_buffer_pos w1 = NUL
                 \<and> (\<exists>out2 w2. handle_lines (k_to_utf8 k1) w1 = Some (out2, w2) \<and> buffer_ok w2)))
       \<and> (\<exists>out k' w'. read_loop k w = Some (out, k', w') \<and> buffer_ok w')
       \<and> (\<forall>p. k_fds k (fd w) = Some (ino, p)
             \<longrightarrow> (\<exists>out k' w'. feed_all k w ino cs = Some (out, k', w') \<and> buffer_ok w'))"
proof (intro conjI allI impI)
  show "\<exists>again out k1 w1. do_read k w = Some (again, out, k1, w1)
            \<and> length (line_buffer_data w1) = LINE_BUFFER_SIZE
            \<and> line_buffer_pos w \<le> line_buffer_pos w1
            \<and> line_buffer_pos w1 - line_buffer_pos w \<le> LINE_BUFFER_SIZE - line_buffer_pos w - 1
            \<and> line_buffer_pos w1 < LINE_BUFFER_SIZE
            \<and> (again \<longrightarrow> line_buffer_data w1 ! line_buffer_pos w1 = NUL
                 \<and> (\<exists>out2 w2. handle_lines (k_to_utf8 k1) w1 = Some (out2, w2) \<and> buffer_ok w2))"
    using assms by (rule do_read_safe)
next
  show "\<exists>out k' w'. read_loop k w = Some (out, k', w') \<and> buffer_ok w'"
  proof (cases "k_fds k (fd w)")
    case None
    with assms show ?thesis
      by (simp add: read_loop_closed)
  next
    case (Some a)
    obtain i p where "k_fds k (fd w) = Some (i, p)"
      using Some by (cases a) simp
    from read_loop_total [OF this assms] obtain out d n where
      "read_loop k w
       = Some (out, k\<lparr>k_fds := (k_fds k)(fd w \<mapsto> (i, max p (length (k_data k i))))\<rparr>,
               w\<lparr>line_buffer_data := d, line_buffer_pos := n\<rparr>)"
      and "length d = LINE_BUFFER_SIZE" and "n < LINE_BUFFER_SIZE - 1"
      by blast
    then show ?thesis
      by (simp add: buffer_ok_def)
  qed
next
  fix p assume "k_fds k (fd w) = Some (ino, p)"
  then show "\<exists>out k' w'. feed_all k w ino cs = Some (out, k', w') \<and> buffer_ok w'"
    using assms by (rule feed_all_safe)
qed

theorem C10_cursor_in_bounds_witness:
  "buffer_ok w_tail
   \<and> (\<exists>again out k1 w1. do_read k_tail w_tail = Some (again, out, k1, w1)
         \<and> length (line_buffer_data w1) = LINE_BUFFER_SIZE
         \<and> line_buffer_pos w1 < LINE_BUFFER_SIZE)
   \<and> (\<exists>out k' w'. read_loop k_tail w_tail = Some (out, k', w') \<and> buffer_ok w')
   \<and> (\<exists>out k' w'. feed_all k_tail w_tail 3 [''a'' @ [NL] @ ''bcd'', [NUL, NL]] = Some (out, k', w')
         \<and> buffer_ok w')"
proof -
  have fdo: "k_fds k_tail (fd w_tail) = Some (3, 0)"
    by (simp add: k_tail_def w_tail_def)
  from C10_cursor_in_bounds [OF w_tail_ok, of k_tail 3 "[''a'' @ [NL] @ ''bcd'', [NUL, NL]]"]
  show ?thesis
    using w_tail_ok fdo by blast
qed


end

